theory Spec2Isabelle
  imports Complex_Main "HOL-Library.Log_Nat"
begin

section \<open>JavaScript numbers\<close>

text \<open>
  Every number of the program is an IEEE-754 binary64 value. The finite ones are modelled
  as the rationals they denote. An arithmetic operation computes the exact result and
  rounds it to the nearest representable value, ties to the even mantissa:
  \<open>binade q\<close> is the exponent \<open>e\<close> with \<open>2^e \<le> |q| < 2^(e+1)\<close>, \<open>ulp q\<close> the
  spacing of the doubles around \<open>q\<close> (53-bit mantissa, smallest normal exponent -1022).
  Overflow to Infinity is not modelled: every value the game computes stays below 26.
\<close>

definition binade :: "rat \<Rightarrow> int" where
  "binade q =
     (let (p, d) = quotient_of \<bar>q\<bar>;
          k = bitlen p - bitlen d
      in if 2 powi k \<le> \<bar>q\<bar> then k else k - 1)"

definition ulp :: "rat \<Rightarrow> rat" where
  "ulp q = 2 powi (max (binade q) (- 1022) - 52)"

definition rne :: "rat \<Rightarrow> int" where
  "rne x =
     (let f = \<lfloor>x\<rfloor>; r = x - of_int f
      in if r < 1 / 2 then f
         else if 1 / 2 < r then f + 1
         else if even f then f else f + 1)"

definition round_double :: "rat \<Rightarrow> rat" where
  "round_double q = (if q = 0 then 0 else sgn q * (of_int (rne (\<bar>q\<bar> / ulp q)) * ulp q))"

definition is_double :: "rat \<Rightarrow> bool" where
  "is_double q \<longleftrightarrow> round_double q = q"

text \<open>The literal \<open>0.1\<close> of the timer: the double nearest to one tenth.\<close>

definition tenth :: rat where
  "tenth = round_double (1 / 10)"

section \<open>Constants of \<open>types/game.ts\<close>\<close>

definition GRID_COLS :: nat where "GRID_COLS = 6"
definition GRID_ROWS :: nat where "GRID_ROWS = 10"
definition INITIAL_ROWS :: nat where "INITIAL_ROWS = 4"
definition TIME_LIMIT :: rat where "TIME_LIMIT = 10"

section \<open>The random source\<close>

text \<open>
  \<open>Math.random()\<close> is the only source of randomness. A run of the program consumes a
  sequence of draws; each draw carries the double it returned (\<open>num\<close>) and the text
  \<open>toString(36).substring(2, 9)\<close> of that double (\<open>str36\<close>), which \<open>generateId\<close>
  uses. The rendering in base 36 is the runtime's and is left unconstrained. A sequence
  is valid when every number it returns is a double in \<open>[0, 1)\<close>.
\<close>

record draw =
  num :: rat
  str36 :: string

type_synonym rng = "nat \<Rightarrow> draw"

definition valid_rng :: "rng \<Rightarrow> bool" where
  "valid_rng g \<longleftrightarrow> (\<forall>n. 0 \<le> num (g n) \<and> num (g n) < 1 \<and> is_double (num (g n)))"

definition Math_random :: "rng \<Rightarrow> draw \<times> rng" where
  "Math_random g = (g 0, \<lambda>n. g (Suc n))"

definition generateId :: "rng \<Rightarrow> string \<times> rng" where
  "generateId g = (let (d, g') = Math_random g in (str36 d, g'))"

definition getRandomValue :: "rng \<Rightarrow> int \<times> rng" where
  "getRandomValue g = (let (d, g') = Math_random g in (\<lfloor>round_double (num d * 9)\<rfloor> + 1, g'))"

definition generateTarget :: "rng \<Rightarrow> int \<times> rng" where
  "generateTarget g = (let (d, g') = Math_random g in (\<lfloor>round_double (num d * 16)\<rfloor> + 10, g'))"

section \<open>Game state\<close>

datatype GameMode = classic | time

record Block =
  id' :: string
  value' :: int
  row :: int
  col :: int

text \<open>
  The state hooks of \<open>App\<close> that the game rules read or write. The language, the help
  dialogue and the stored high score do not influence them and are left out. The score
  is an integer-valued double far below \<open>2^53\<close> and is modelled as an integer.
\<close>

record GameState =
  mode :: "GameMode option"
  blocks :: "Block list"
  selectedIds :: "string list"
  targetSum :: int
  score :: int
  isGameOver :: bool
  timeLeft :: rat
  isPaused :: bool

definition initialState :: GameState where
  "initialState =
     \<lparr>mode = None, blocks = [], selectedIds = [], targetSum = 0, score = 0,
      isGameOver = False, timeLeft = TIME_LIMIT, isPaused = False\<rparr>"

section \<open>Operations\<close>

text \<open>One row of fresh blocks: for each column an id, then a value.\<close>

fun newBlocks :: "int \<Rightarrow> nat list \<Rightarrow> rng \<Rightarrow> Block list \<times> rng" where
  "newBlocks r [] g = ([], g)"
| "newBlocks r (c # cs) g =
     (let (i, g1) = generateId g;
          (v, g2) = getRandomValue g1;
          (bs, g3) = newBlocks r cs g2
      in (\<lparr>id' = i, value' = v, row = r, col = int c\<rparr> # bs, g3))"

definition addNewRow :: "rng \<Rightarrow> GameState \<Rightarrow> GameState \<times> rng" where
  "addNewRow g s =
     (let shifted = map (\<lambda>b. b\<lparr>row := row b - 1\<rparr>) (blocks s)
      in if list_ex (\<lambda>b. row b < 0) shifted then (s\<lparr>isGameOver := True\<rparr>, g)
         else (let (newRow, g') = newBlocks (int GRID_ROWS - 1) [0..<GRID_COLS] g
               in (s\<lparr>blocks := shifted @ newRow\<rparr>, g')))"

fun initialBlocks :: "nat list \<Rightarrow> rng \<Rightarrow> Block list \<times> rng" where
  "initialBlocks [] g = ([], g)"
| "initialBlocks (r # rs) g =
     (let (bs, g1) = newBlocks (int r) [0..<GRID_COLS] g;
          (bs', g2) = initialBlocks rs g1
      in (bs @ bs', g2))"

definition startGame :: "GameMode \<Rightarrow> rng \<Rightarrow> GameState \<Rightarrow> GameState \<times> rng" where
  "startGame selectedMode g s =
     (let (initialTarget, g1) = generateTarget g;
          (bs, g2) = initialBlocks [GRID_ROWS - INITIAL_ROWS..<GRID_ROWS] g1
      in (s\<lparr>mode := Some selectedMode, isGameOver := False, score := 0, selectedIds := [],
            targetSum := initialTarget, timeLeft := TIME_LIMIT, blocks := bs\<rparr>, g2))"

definition handleBlockClick :: "string \<Rightarrow> GameState \<Rightarrow> GameState" where
  "handleBlockClick i s =
     (if isGameOver s \<or> isPaused s then s
      else s\<lparr>selectedIds :=
               (if i \<in> set (selectedIds s) then filter (\<lambda>j. j \<noteq> i) (selectedIds s)
                else selectedIds s @ [i])\<rparr>)"

definition currentSum :: "GameState \<Rightarrow> int" where
  "currentSum s = sum_list (map value' (filter (\<lambda>b. id' b \<in> set (selectedIds s)) (blocks s)))"

text \<open>
  The effect that checks the sum. Its state updates are applied in the order they are
  queued: the score, the removal, the selection, the target, the timer, and then the
  update queued by \<open>addNewRow\<close>, which therefore sees the board after the removal.
\<close>

definition checkSum :: "rng \<Rightarrow> GameState \<Rightarrow> GameState \<times> rng" where
  "checkSum g s =
     (if selectedIds s \<noteq> [] \<and> currentSum s = targetSum s then
        (let count = int (length (selectedIds s));
             (t, g1) = generateTarget g;
             s' = s\<lparr>score := score s + count * 10 + (if mode s = Some time then \<lceil>timeLeft s\<rceil> else 0),
                    blocks := filter (\<lambda>b. id' b \<notin> set (selectedIds s)) (blocks s),
                    selectedIds := [],
                    targetSum := t,
                    timeLeft := TIME_LIMIT\<rparr>
         in if mode s = Some classic then addNewRow g1 s' else (s', g1))
      else if targetSum s < currentSum s then (s\<lparr>selectedIds := []\<rparr>, g)
      else (s, g))"

text \<open>
  One firing of the interval timer. The interval exists only in time mode while the game
  is neither over nor paused; otherwise nothing fires.
\<close>

definition timerTick :: "rng \<Rightarrow> GameState \<Rightarrow> GameState \<times> rng" where
  "timerTick g s =
     (if mode s = Some time \<and> \<not> isGameOver s \<and> \<not> isPaused s then
        (if timeLeft s \<le> 0 then
           (let (s', g') = addNewRow g s in (s'\<lparr>timeLeft := TIME_LIMIT\<rparr>, g'))
         else (s\<lparr>timeLeft := round_double (timeLeft s - tenth)\<rparr>, g))
      else (s, g))"

section \<open>Sessions\<close>

text \<open>
  What can happen to the component: a game is started, a block is clicked, the timer
  fires, the pause button toggles, the dialogue resumes, a button returns to the menu.
  After each of them the effect that checks the sum runs.
\<close>

datatype Event =
  StartGame GameMode | BlockClick string | TimerTick | TogglePause | Resume | ToMenu

fun handle :: "Event \<Rightarrow> GameState \<times> rng \<Rightarrow> GameState \<times> rng" where
  "handle (StartGame m) (s, g) = startGame m g s"
| "handle (BlockClick i) (s, g) = (handleBlockClick i s, g)"
| "handle TimerTick (s, g) = timerTick g s"
| "handle TogglePause (s, g) = (s\<lparr>isPaused := \<not> isPaused s\<rparr>, g)"
| "handle Resume (s, g) = (s\<lparr>isPaused := False\<rparr>, g)"
| "handle ToMenu (s, g) = (s\<lparr>mode := None\<rparr>, g)"

definition step :: "Event \<Rightarrow> GameState \<times> rng \<Rightarrow> GameState \<times> rng" where
  "step e c = (let (s, g) = handle e c in checkSum g s)"

fun run :: "Event list \<Rightarrow> GameState \<times> rng \<Rightarrow> GameState \<times> rng" where
  "run [] c = c"
| "run (e # es) c = run es (step e c)"

section \<open>Properties of states\<close>

text \<open>
  The predicates the results are stated with: the cell a tile occupies; a board whose
  tiles occupy pairwise different cells inside the grid's bottom edge; a time left
  between minus one timer decrement and the limit; a selection that only names tiles on
  the board; and an event sequence in which every click is on a tile that is on the
  board at that moment. The program does not confine clicks to such tiles: the button
  of a removed tile stays mounted, with its handler, while its exit animation plays.
\<close>

definition cell :: "Block \<Rightarrow> int \<times> int" where
  "cell b = (row b, col b)"

definition cellsOk :: "Block list \<Rightarrow> bool" where
  "cellsOk bs \<longleftrightarrow> distinct (map cell bs) \<and> (\<forall>b \<in> set bs. row b < int GRID_ROWS)"

definition timeOk :: "GameState \<Rightarrow> bool" where
  "timeOk s \<longleftrightarrow> - tenth \<le> timeLeft s \<and> timeLeft s \<le> TIME_LIMIT"

definition selOk :: "GameState \<Rightarrow> bool" where
  "selOk s \<longleftrightarrow> set (selectedIds s) \<subseteq> id' ` set (blocks s)"

fun clicksOnBoard :: "Event list \<Rightarrow> GameState \<times> rng \<Rightarrow> bool" where
  "clicksOnBoard [] c = True"
| "clicksOnBoard (e # es) c =
     ((case e of BlockClick i \<Rightarrow> i \<in> id' ` set (blocks (fst c)) | _ \<Rightarrow> True)
      \<and> clicksOnBoard es (step e c))"

section \<open>The timer in units of \<open>2^-56\<close>\<close>

text \<open>
  Every value the timer takes is an integer multiple of \<open>2^-56\<close>. On those multiples
  the rounding is integer arithmetic: \<open>rnd56\<close> keeps the 53 leading bits of the
  numerator, rounding to nearest and ties to even, and \<open>tick56\<close> is one decrement by
  the literal 0.1, whose numerator is 7205759403792794. \<open>countdown k n\<close> performs \<open>k\<close>
  decrements as long as the value before each is positive. These serve to evaluate long
  runs of the timer; they are related to \<open>round_double\<close> below.
\<close>

definition U56 :: rat where
  "U56 = 2 powi (- 56)"

definition rnd56 :: "int \<Rightarrow> int" where
  "rnd56 m =
     (let d = 2 ^ nat (bitlen \<bar>m\<bar> - 53);
          q = \<bar>m\<bar> div d;
          r = \<bar>m\<bar> mod d
      in sgn m * (if 2 * r < d then q else if d < 2 * r then q + 1 else if even q then q else q + 1) * d)"

definition tick56 :: "int \<Rightarrow> int" where
  "tick56 n = rnd56 (n - 7205759403792794)"

fun countdown :: "nat \<Rightarrow> int \<Rightarrow> int option" where
  "countdown 0 n = Some n"
| "countdown (Suc k) n = (if 0 < n then countdown k (tick56 n) else None)"

section \<open>Concrete sessions\<close>

text \<open>Inputs on which the results below are evaluated.\<close>

definition rng_half :: rng where
  "rng_half = (\<lambda>n. \<lparr>num = 1 / 2, str36 = replicate (Suc n) (CHR ''a'')\<rparr>)"

definition state_top :: GameState where
  "state_top =
     \<lparr>mode = Some classic,
      blocks = [\<lparr>id' = ''a'', value' = 3, row = 0, col = 0\<rparr>,
                \<lparr>id' = ''b'', value' = 4, row = 1, col = 0\<rparr>],
      selectedIds = [], targetSum = 12, score = 30,
      isGameOver = False, timeLeft = 10, isPaused = False\<rparr>"

definition state_bust :: GameState where
  "state_bust =
     \<lparr>mode = Some time,
      blocks = [\<lparr>id' = ''a'', value' = 7, row = 9, col = 0\<rparr>,
                \<lparr>id' = ''b'', value' = 5, row = 9, col = 1\<rparr>,
                \<lparr>id' = ''c'', value' = 2, row = 9, col = 2\<rparr>],
      selectedIds = [''a'', ''b''], targetSum = 10, score = 20,
      isGameOver = False, timeLeft = 7 / 2, isPaused = False\<rparr>"

definition state_match_top :: GameState where
  "state_match_top =
     \<lparr>mode = Some classic,
      blocks = [\<lparr>id' = ''a'', value' = 9, row = 9, col = 0\<rparr>,
                \<lparr>id' = ''b'', value' = 9, row = 9, col = 1\<rparr>,
                \<lparr>id' = ''c'', value' = 4, row = 0, col = 2\<rparr>],
      selectedIds = [''a'', ''b''], targetSum = 18, score = 20,
      isGameOver = False, timeLeft = 10, isPaused = False\<rparr>"

definition state_match_classic :: GameState where
  "state_match_classic =
     \<lparr>mode = Some classic,
      blocks = [\<lparr>id' = ''a'', value' = 6, row = 9, col = 0\<rparr>,
                \<lparr>id' = ''b'', value' = 9, row = 9, col = 1\<rparr>,
                \<lparr>id' = ''c'', value' = 2, row = 8, col = 1\<rparr>],
      selectedIds = [''a'', ''b''], targetSum = 15, score = 20,
      isGameOver = False, timeLeft = 10, isPaused = False\<rparr>"

definition state_low :: GameState where
  "state_low =
     \<lparr>mode = Some time,
      blocks = [\<lparr>id' = ''a'', value' = 6, row = 9, col = 0\<rparr>,
                \<lparr>id' = ''b'', value' = 9, row = 9, col = 1\<rparr>],
      selectedIds = [], targetSum = 15, score = 0,
      isGameOver = False, timeLeft = round_double (1 / 20), isPaused = False\<rparr>"

definition state_idle :: GameState where
  "state_idle =
     \<lparr>mode = Some classic,
      blocks = [\<lparr>id' = ''a'', value' = 6, row = 9, col = 0\<rparr>,
                \<lparr>id' = ''b'', value' = 9, row = 9, col = 1\<rparr>],
      selectedIds = [''a''], targetSum = 15, score = 0,
      isGameOver = False, timeLeft = 10, isPaused = False\<rparr>"

section \<open>Rounding to the nearest double\<close>

lemma bitlen_powi_bounds:
  fixes n :: int
  assumes "0 < n"
  shows "(2::rat) powi (bitlen n - 1) \<le> of_int n" and "of_int n < (2::rat) powi bitlen n"
proof -
  from assms have b1: "1 \<le> bitlen n"
    using bitlen_eq_zero_iff [of n] bitlen_nonneg [of n] by linarith
  from bitlen_bounds [OF assms]
  have lo: "(2::int) ^ nat (bitlen n - 1) \<le> n" and hi: "n < 2 ^ nat (bitlen n)" by auto
  have "(of_int ((2::int) ^ nat (bitlen n - 1)) :: rat) \<le> of_int n"
    using lo by (simp only: of_int_le_iff)
  then show "(2::rat) powi (bitlen n - 1) \<le> of_int n"
    using b1 by (simp add: power_int_def)
  have "(of_int n :: rat) < of_int ((2::int) ^ nat (bitlen n))"
    using hi by (simp only: of_int_less_iff)
  then show "of_int n < (2::rat) powi bitlen n"
    using b1 by (simp add: power_int_def)
qed

lemma powi2_less_iff: "(2::rat) powi a < 2 powi b \<longleftrightarrow> a < b"
  by (metis linorder_not_less one_less_numeral_iff power_int_increasing power_int_strict_increasing semiring_norm(76) order_less_imp_le)

lemma powi2_le_iff: "(2::rat) powi a \<le> 2 powi b \<longleftrightarrow> a \<le> b"
  using powi2_less_iff [of b a] by (auto simp: not_less [symmetric])

lemma binade_bounds:
  assumes "q \<noteq> 0"
  shows "2 powi binade q \<le> \<bar>q\<bar>" and "\<bar>q\<bar> < 2 powi (binade q + 1)"
proof -
  obtain p d where pd: "quotient_of \<bar>q\<bar> = (p, d)" by (cases "quotient_of \<bar>q\<bar>")
  have d: "0 < d" using quotient_of_denom_pos [OF pd] .
  have q: "\<bar>q\<bar> = of_int p / of_int d" using quotient_of_div [OF pd] .
  have "0 < \<bar>q\<bar>" using assms by simp
  with q d have p: "0 < p" by (simp add: zero_less_divide_iff)
  define k where "k = bitlen p - bitlen d"
  have dr: "(0::rat) < of_int d" using d by simp
  have up: "\<bar>q\<bar> < 2 powi (k + 1)"
  proof -
    have "of_int p < (2::rat) powi (k + 1) * 2 powi (bitlen d - 1)"
      using bitlen_powi_bounds(2) [OF p] by (simp add: k_def power_int_add [symmetric])
    also have "\<dots> \<le> 2 powi (k + 1) * of_int d"
      using bitlen_powi_bounds(1) [OF d] by (simp add: mult_left_mono)
    finally show ?thesis using dr by (simp add: q pos_divide_less_eq)
  qed
  have low: "2 powi (k - 1) \<le> \<bar>q\<bar>"
  proof -
    have "(2::rat) powi (k - 1) * of_int d \<le> 2 powi (k - 1) * 2 powi bitlen d"
      using bitlen_powi_bounds(2) [OF d] by (simp add: mult_left_mono)
    also have "\<dots> = 2 powi (bitlen p - 1)"
      by (simp add: k_def power_int_add [symmetric])
    also have "\<dots> \<le> of_int p" using bitlen_powi_bounds(1) [OF p] .
    finally show ?thesis using dr by (simp add: q pos_le_divide_eq)
  qed
  have bin: "binade q = (if 2 powi k \<le> \<bar>q\<bar> then k else k - 1)"
    by (simp add: binade_def pd k_def Let_def)
  show "2 powi binade q \<le> \<bar>q\<bar>" using low by (simp add: bin)
  show "\<bar>q\<bar> < 2 powi (binade q + 1)" using up by (auto simp: bin not_le)
qed

lemma binade_unique:
  assumes "2 powi e \<le> \<bar>q\<bar>" and "\<bar>q\<bar> < 2 powi (e + 1)"
  shows "binade q = e"
proof -
  have "0 < \<bar>q\<bar>" using assms(1) by (rule less_le_trans [rotated]) simp
  then have q: "q \<noteq> 0" by simp
  from binade_bounds [OF q] assms
  have "(2::rat) powi e < 2 powi (binade q + 1)" and "(2::rat) powi binade q < 2 powi (e + 1)"
    by linarith+
  then show ?thesis by (simp add: powi2_less_iff)
qed

lemma binade_mono:
  assumes "x \<noteq> 0" and "\<bar>x\<bar> \<le> \<bar>y\<bar>"
  shows "binade x \<le> binade y"
proof -
  from assms have y: "y \<noteq> 0" by auto
  have "(2::rat) powi binade x < 2 powi (binade y + 1)"
    using binade_bounds(1) [OF assms(1)] binade_bounds(2) [OF y] assms(2) by linarith
  then show ?thesis by (simp add: powi2_less_iff)
qed


lemma rne_nonneg: "0 \<le> x \<Longrightarrow> 0 \<le> rne x"
  by (auto simp: rne_def Let_def)

lemma rne_le_half:
  assumes "x < of_int N + 1 / 2"
  shows "rne x \<le> N"
proof -
  have fl: "\<lfloor>x\<rfloor> \<le> N" using assms by (simp add: floor_le_iff)
  show ?thesis
  proof (cases "\<lfloor>x\<rfloor> = N")
    case True
    then have "x - of_int \<lfloor>x\<rfloor> < 1 / 2" using assms by simp
    then show ?thesis using True by (simp add: rne_def Let_def)
  next
    case False
    with fl have "\<lfloor>x\<rfloor> + 1 \<le> N" by simp
    then show ?thesis by (auto simp: rne_def Let_def)
  qed
qed

lemma rne_le: "x \<le> of_int N \<Longrightarrow> rne x \<le> N"
  by (rule rne_le_half) simp

lemma ulp_pos: "0 < ulp q"
  by (simp add: ulp_def)

lemma ulp_multiple:
  assumes "binade x \<le> binade y"
  shows "\<exists>n::nat. ulp y = 2 ^ n * ulp x"
proof -
  define a where "a = max (binade x) (- 1022) - 52"
  define b where "b = max (binade y) (- 1022) - 52"
  have ab: "a \<le> b" using assms by (simp add: a_def b_def)
  have "(2::rat) powi b = 2 powi ((b - a) + a)" by simp
  also have "\<dots> = 2 powi (b - a) * 2 powi a" by (rule power_int_add) simp
  also have "(2::rat) powi (b - a) = 2 ^ nat (b - a)" using ab by (simp add: power_int_def)
  finally have "ulp y = 2 ^ nat (b - a) * ulp x"
    unfolding ulp_def a_def [symmetric] b_def [symmetric] .
  then show ?thesis ..
qed

lemma round_double_abs:
  assumes "q \<noteq> 0"
  shows "\<bar>round_double q\<bar> = of_int (rne (\<bar>q\<bar> / ulp q)) * ulp q"
proof -
  have "0 \<le> \<bar>q\<bar> / ulp q" using ulp_pos [of q] by simp
  then have "0 \<le> rne (\<bar>q\<bar> / ulp q)" by (rule rne_nonneg)
  then have r: "\<bar>of_int (rne (\<bar>q\<bar> / ulp q)) :: rat\<bar> = of_int (rne (\<bar>q\<bar> / ulp q))" by simp
  have u: "\<bar>ulp q\<bar> = ulp q" using ulp_pos [of q] by simp
  have "\<bar>sgn q\<bar> = 1" using assms by (simp add: abs_sgn_eq)
  then show ?thesis
    using assms by (simp only: round_double_def if_False abs_mult r u mult_1)
qed

lemma round_double_nonneg: "0 \<le> x \<Longrightarrow> 0 \<le> round_double x"
  using round_double_abs [of x] by (cases "x = 0") (simp_all add: round_double_def)

lemma round_double_nonpos:
  assumes "x \<le> 0"
  shows "round_double x \<le> 0"
proof (cases "x = 0")
  case True
  then show ?thesis by (simp add: round_double_def)
next
  case False
  with assms have neg: "sgn x = - 1" by simp
  have "0 \<le> \<bar>round_double x\<bar>" by simp
  then have "0 \<le> of_int (rne (\<bar>x\<bar> / ulp x)) * ulp x" by (simp only: round_double_abs [OF False])
  then show ?thesis using False by (simp only: round_double_def if_False neg)
qed

lemma round_double_abs_le:
  assumes y: "is_double y" "0 < y" and xy: "\<bar>x\<bar> \<le> y"
  shows "\<bar>round_double x\<bar> \<le> y"
proof (cases "x = 0")
  case True
  then show ?thesis using y by (simp add: round_double_def)
next
  case False
  have y0: "y \<noteq> 0" using y by simp
  have "binade x \<le> binade y" using False xy y by (intro binade_mono) simp_all
  then obtain n :: nat where n: "ulp y = 2 ^ n * ulp x" using ulp_multiple by blast
  define M where "M = rne (\<bar>y\<bar> / ulp y)"
  have "y = \<bar>round_double y\<bar>" using y by (simp add: is_double_def)
  also have "\<dots> = of_int M * ulp y" using round_double_abs [OF y0] by (simp add: M_def)
  also have "\<dots> = of_int (M * 2 ^ n) * ulp x" by (simp add: n)
  finally have yM: "y = of_int (M * 2 ^ n) * ulp x" .
  have "\<bar>x\<bar> / ulp x \<le> of_int (M * 2 ^ n)"
  proof -
    have "\<bar>x\<bar> / ulp x \<le> y / ulp x" using xy ulp_pos [of x] by (simp add: divide_right_mono)
    also have "y / ulp x = of_int (M * 2 ^ n)" using ulp_pos [of x] by (subst yM) simp
    finally show ?thesis .
  qed
  then have "rne (\<bar>x\<bar> / ulp x) \<le> M * 2 ^ n" by (rule rne_le)
  then have "(of_int (rne (\<bar>x\<bar> / ulp x)) :: rat) \<le> of_int (M * 2 ^ n)" by (simp only: of_int_le_iff)
  then have "of_int (rne (\<bar>x\<bar> / ulp x)) * ulp x \<le> of_int (M * 2 ^ n) * ulp x"
    using ulp_pos [of x] by (simp add: mult_right_mono)
  then show ?thesis using round_double_abs [OF False] yM by simp
qed

lemma floor_rat_numeral: "\<lfloor>(numeral a :: rat) / numeral b\<rfloor> = numeral a div numeral b"
  using floor_divide_of_int_eq [of "numeral a" "numeral b", where ?'a = rat] by simp

lemma binade_tenth: "binade (1 / 10) = - 4"
  by (rule binade_unique) (simp_all add: power_int_minus)

lemma tenth_value: "tenth = 3602879701896397 / 36028797018963968"
  by (simp add: tenth_def round_double_def ulp_def binade_tenth rne_def Let_def power_int_minus floor_rat_numeral)

lemma binade_10: "binade 10 = 3"
  by (rule binade_unique) simp_all

lemma is_double_10: "is_double 10"
  by (simp add: is_double_def round_double_def ulp_def binade_10 rne_def Let_def power_int_minus floor_rat_numeral)

lemma binade_8: "binade 8 = 3"
  by (rule binade_unique) simp_all

lemma is_double_8: "is_double 8"
  by (simp add: is_double_def round_double_def ulp_def binade_8 rne_def Let_def power_int_minus floor_rat_numeral)

lemma binade_tenth_value: "binade (3602879701896397 / 36028797018963968) = - 4"
  by (rule binade_unique) (simp_all add: power_int_minus)

lemma is_double_tenth: "is_double tenth"
  unfolding tenth_value
  by (simp add: is_double_def round_double_def ulp_def binade_tenth_value rne_def Let_def power_int_minus floor_rat_numeral)

lemma binade_below_16: "binade (9007199254740991 / 562949953421312) = 3"
  by (rule binade_unique) simp_all

lemma is_double_below_16: "is_double (9007199254740991 / 562949953421312)"
  by (simp add: is_double_def round_double_def ulp_def binade_below_16 rne_def Let_def power_int_minus floor_rat_numeral)

lemma unit_double_le:
  assumes "is_double r" and "0 \<le> r" and "r < 1"
  shows "r \<le> 1 - 1 / 2 ^ 53"
proof (cases "r < 1 / 2")
  case True
  have "(1::rat) / 2 ^ 53 \<le> 1 / 2 ^ 1"
    by (intro divide_left_mono power_increasing) simp_all
  with True show ?thesis by simp
next
  case False
  define P :: rat where "P = 2 ^ 53"
  have Ppos: "0 < P" by (simp add: P_def)
  have Pint: "P = of_int (2 ^ 53)" by (simp add: P_def)
  from False have half: "1 / 2 \<le> r" by simp
  then have r0: "r \<noteq> 0" by auto
  have b: "binade r = - 1"
    using half assms by (intro binade_unique) (simp_all add: power_int_minus)
  have "ulp r = 2 powi (- 53)" by (simp add: ulp_def b)
  then have u: "ulp r = 1 / P" by (simp add: P_def power_int_minus inverse_eq_divide)
  define m where "m = rne (\<bar>r\<bar> / ulp r)"
  have "r = \<bar>round_double r\<bar>" using assms by (simp add: is_double_def)
  also have "\<dots> = of_int m * ulp r" unfolding m_def by (rule round_double_abs [OF r0])
  finally have rm: "r = of_int m / P" by (simp add: u)
  from assms(3) Ppos have "of_int m < P" by (simp add: rm pos_divide_less_eq)
  then have "m < 2 ^ 53" unfolding Pint by (simp only: of_int_less_iff)
  then have "m \<le> 2 ^ 53 - 1" by linarith
  then have "(of_int m :: rat) \<le> of_int (2 ^ 53 - 1)" by (simp only: of_int_le_iff)
  also have "\<dots> = P - 1" by (simp add: P_def)
  finally have "of_int m / P \<le> (P - 1) / P" using Ppos by (simp only: divide_right_mono less_imp_le)
  also have "\<dots> = 1 - 1 / P" using Ppos by (simp add: diff_divide_distrib)
  finally have "of_int m / P \<le> 1 - 1 / P" .
  then have "r \<le> 1 - 1 / P" by (simp only: rm [symmetric])
  then show ?thesis by (simp only: P_def)
qed

lemma floor_times_16:
  assumes "is_double r" and "0 \<le> r" and "r < 1"
  shows "0 \<le> \<lfloor>round_double (r * 16)\<rfloor>" and "\<lfloor>round_double (r * 16)\<rfloor> \<le> 15"
proof -
  have nn: "0 \<le> round_double (r * 16)" using assms(2) by (intro round_double_nonneg) simp
  then show "0 \<le> \<lfloor>round_double (r * 16)\<rfloor>" by simp
  have "\<bar>r * 16\<bar> \<le> 9007199254740991 / 562949953421312"
    using unit_double_le [OF assms] assms(2) by simp
  then have "\<bar>round_double (r * 16)\<bar> \<le> 9007199254740991 / 562949953421312"
    by (intro round_double_abs_le is_double_below_16) simp_all
  then have "round_double (r * 16) < 16" by simp
  then show "\<lfloor>round_double (r * 16)\<rfloor> \<le> 15" by (simp add: floor_le_iff)
qed

lemma floor_times_9:
  assumes "is_double r" and "0 \<le> r" and "r < 1"
  shows "0 \<le> \<lfloor>round_double (r * 9)\<rfloor>" and "\<lfloor>round_double (r * 9)\<rfloor> \<le> 8"
proof -
  have nn: "0 \<le> round_double (r * 9)" using assms(2) by (intro round_double_nonneg) simp
  then show "0 \<le> \<lfloor>round_double (r * 9)\<rfloor>" by simp
  have "round_double (r * 9) < 9"
  proof (cases "r * 9 \<le> 8")
    case True
    then have "\<bar>r * 9\<bar> \<le> 8" using assms(2) by simp
    then have "\<bar>round_double (r * 9)\<bar> \<le> 8"
      by (intro round_double_abs_le is_double_8) simp_all
    then show ?thesis by simp
  next
    case False
    define x where "x = r * 9"
    have x8: "8 < x" using False by (simp add: x_def)
    have xle: "x \<le> 9 - 9 / 2 ^ 53" using unit_double_le [OF assms] by (simp add: x_def)
    have x0: "x \<noteq> 0" using x8 by simp
    have b: "binade x = 3" using x8 xle by (intro binade_unique) simp_all
    have u: "ulp x = 1 / 2 ^ 49" by (simp add: ulp_def b power_int_minus inverse_eq_divide)
    have "\<bar>x\<bar> / ulp x < of_int (9 * 2 ^ 49 - 1) + 1 / 2"
      using x8 xle by (simp add: u)
    then have "rne (\<bar>x\<bar> / ulp x) \<le> 9 * 2 ^ 49 - 1" by (rule rne_le_half)
    then have "(of_int (rne (\<bar>x\<bar> / ulp x)) :: rat) \<le> of_int (9 * 2 ^ 49 - 1)"
      by (simp only: of_int_le_iff)
    then have "\<bar>round_double x\<bar> \<le> of_int (9 * 2 ^ 49 - 1) / 2 ^ 49"
      by (simp add: round_double_abs [OF x0] u)
    then show ?thesis by (simp add: x_def)
  qed
  then show "\<lfloor>round_double (r * 9)\<rfloor> \<le> 8" by (simp add: floor_le_iff)
qed

lemma tick_bounds:
  assumes "0 < t" and "t \<le> 10"
  shows "- tenth \<le> round_double (t - tenth)" and "round_double (t - tenth) \<le> 10"
proof -
  have tp: "0 < tenth" by (simp add: tenth_value)
  show "- tenth \<le> round_double (t - tenth)"
  proof (cases "0 \<le> t - tenth")
    case True
    then have "0 \<le> round_double (t - tenth)" by (rule round_double_nonneg)
    with tp show ?thesis by simp
  next
    case False
    then have "\<bar>t - tenth\<bar> \<le> tenth" using assms(1) by simp
    then have "\<bar>round_double (t - tenth)\<bar> \<le> tenth"
      using tp by (intro round_double_abs_le is_double_tenth)
    then show ?thesis by simp
  qed
  show "round_double (t - tenth) \<le> 10"
  proof -
    have "\<bar>t - tenth\<bar> \<le> 10" using assms tp by (simp add: tenth_value abs_le_iff)
    then have "\<bar>round_double (t - tenth)\<bar> \<le> 10"
      by (intro round_double_abs_le is_double_10) simp_all
    then show ?thesis by simp
  qed
qed

section \<open>Rounding multiples of \<open>2^-56\<close>\<close>

lemma rne_of_int: "rne (of_int k) = k"
  by (simp add: rne_def)

lemma rne_div:
  assumes "0 < d"
  shows "rne (of_int a / of_int d) =
    (let q = a div d; r = a mod d
     in if 2 * r < d then q else if d < 2 * r then q + 1 else if even q then q else q + 1)"
proof -
  have dr: "(0::rat) < of_int d" using assms by simp
  have fl: "\<lfloor>(of_int a :: rat) / of_int d\<rfloor> = a div d" by (rule floor_divide_of_int_eq)
  have "(of_int a :: rat) = of_int (a div d * d + a mod d)" by (simp only: div_mult_mod_eq)
  also have "\<dots> = of_int (a div d) * of_int d + of_int (a mod d)"
    by (simp only: of_int_add of_int_mult)
  finally have fr: "(of_int a :: rat) / of_int d - of_int (a div d) = of_int (a mod d) / of_int d"
    using dr by (simp add: field_simps)
  have lt: "(of_int (a mod d) :: rat) / of_int d < 1 / 2 \<longleftrightarrow> 2 * (a mod d) < d"
  proof -
    have "(of_int (a mod d) :: rat) / of_int d < 1 / 2 \<longleftrightarrow> (of_int (2 * (a mod d)) :: rat) < of_int d"
      using dr by (simp add: field_simps)
    then show ?thesis by (simp only: of_int_less_iff)
  qed
  have gt: "1 / 2 < (of_int (a mod d) :: rat) / of_int d \<longleftrightarrow> d < 2 * (a mod d)"
  proof -
    have "1 / 2 < (of_int (a mod d) :: rat) / of_int d \<longleftrightarrow> (of_int d :: rat) < of_int (2 * (a mod d))"
      using dr by (simp add: field_simps)
    then show ?thesis by (simp only: of_int_less_iff)
  qed
  show ?thesis
    unfolding rne_def Let_def fl fr lt gt ..
qed

lemma U56_pos: "0 < U56"
  unfolding U56_def by (rule zero_less_power_int) simp

lemma U56_mult: "2 powi a * U56 = 2 powi (a - 56)"
proof -
  have "(2::rat) powi a * 2 powi (- 56) = 2 powi (a + (- 56))"
    by (rule power_int_add [symmetric]) simp
  then show ?thesis unfolding U56_def by (simp only: diff_conv_add_uminus)
qed

lemma round_double_scaled: "round_double (of_int m * U56) = of_int (rnd56 m) * U56"
proof (cases "m = 0")
  case True
  then show ?thesis by (simp add: round_double_def rnd56_def)
next
  case False
  define q :: rat where "q = of_int m * U56"
  define b where "b = bitlen \<bar>m\<bar>"
  have mpos: "0 < \<bar>m\<bar>" using False by simp
  have q0: "q \<noteq> 0" using False U56_pos by (simp add: q_def)
  have absq: "\<bar>q\<bar> = of_int \<bar>m\<bar> * U56"
    using U56_pos by (simp add: q_def abs_mult)
  have sgnq: "sgn q = of_int (sgn m)"
    using U56_pos by (simp add: q_def sgn_if zero_less_mult_iff mult_less_0_iff)
  have lo: "(2::rat) powi (b - 1) \<le> of_int \<bar>m\<bar>" and hi: "of_int \<bar>m\<bar> < (2::rat) powi b"
    using bitlen_powi_bounds [OF mpos] by (simp_all add: b_def)
  have b1: "1 \<le> b" using mpos bitlen_eq_zero_iff [of "\<bar>m\<bar>"] bitlen_nonneg [of "\<bar>m\<bar>"]
    by (simp add: b_def)
  have bin: "binade q = b - 57"
  proof (rule binade_unique)
    have "(2::rat) powi (b - 57) = 2 powi (b - 1) * U56" by (simp add: U56_mult)
    also have "\<dots> \<le> \<bar>q\<bar>"
      unfolding absq using lo U56_pos by (intro mult_right_mono) simp_all
    finally show "2 powi (b - 57) \<le> \<bar>q\<bar>" .
    have "\<bar>q\<bar> < 2 powi b * U56"
      unfolding absq using hi U56_pos by (intro mult_strict_right_mono) simp_all
    also have "\<dots> = 2 powi (b - 57 + 1)" by (simp add: U56_mult)
    finally show "\<bar>q\<bar> < 2 powi (b - 57 + 1)" .
  qed
  have "ulp q = 2 powi (b - 53 - 56)" using b1 by (simp add: ulp_def bin)
  then have u: "ulp q = 2 powi (b - 53) * U56" by (simp only: U56_mult)
  show ?thesis
  proof (cases "b \<le> 53")
    case True
    define k where "k = nat (53 - b)"
    have "(2::rat) powi (b - 53) * 2 powi (int k) = 2 powi (b - 53 + int k)"
      by (rule power_int_add [symmetric]) simp
    also have "b - 53 + int k = 0" using True by (simp add: k_def)
    finally have pk: "(2::rat) powi (b - 53) * 2 ^ k = 1" by simp
    have "\<bar>q\<bar> = of_int \<bar>m\<bar> * ((2::rat) powi (b - 53) * 2 ^ k) * U56"
      by (simp only: pk absq mult_1_right)
    also have "\<dots> = of_int (\<bar>m\<bar> * 2 ^ k) * ulp q" by (simp add: u)
    finally have qk: "\<bar>q\<bar> = of_int (\<bar>m\<bar> * 2 ^ k) * ulp q" .
    have "\<bar>q\<bar> / ulp q = of_int (\<bar>m\<bar> * 2 ^ k)"
      using ulp_pos [of q] by (subst qk) simp
    then have "rne (\<bar>q\<bar> / ulp q) = \<bar>m\<bar> * 2 ^ k" by (simp only: rne_of_int)
    then have "\<bar>round_double q\<bar> = of_int (\<bar>m\<bar> * 2 ^ k) * ulp q"
      by (simp only: round_double_abs [OF q0])
    then have aq: "\<bar>round_double q\<bar> = \<bar>q\<bar>" by (simp only: qk [symmetric])
    have "round_double q = sgn q * \<bar>round_double q\<bar>"
      using q0 round_double_abs [OF q0] by (simp add: round_double_def)
    then have rq: "round_double q = q" by (simp only: aq mult_sgn_abs)
    have "bitlen \<bar>m\<bar> - 53 \<le> 0" using True by (simp add: b_def)
    then have "rnd56 m = sgn m * \<bar>m\<bar>" by (simp add: rnd56_def)
    then have "rnd56 m = m" by (simp only: mult_sgn_abs)
    with rq show ?thesis by (simp only: q_def)
  next
    case False
    define j where "j = nat (b - 53)"
    define d :: int where "d = 2 ^ j"
    have dpos: "0 < d" by (simp add: d_def)
    have jb: "b - 53 = int j" using False by (simp add: j_def)
    have ud: "ulp q = of_int d * U56" unfolding u jb by (simp add: d_def)
    have "\<bar>q\<bar> / ulp q = of_int \<bar>m\<bar> / of_int d"
      unfolding absq ud using U56_pos by simp
    then have r: "rne (\<bar>q\<bar> / ulp q) =
      (let q = \<bar>m\<bar> div d; r = \<bar>m\<bar> mod d
       in if 2 * r < d then q else if d < 2 * r then q + 1 else if even q then q else q + 1)"
      by (simp only: rne_div [OF dpos])
    define R where "R = rne (\<bar>q\<bar> / ulp q)"
    have rn: "rnd56 m = sgn m * R * d"
      unfolding R_def r by (simp add: rnd56_def Let_def d_def j_def b_def)
    have "round_double q = sgn q * (of_int R * ulp q)"
      using q0 by (simp add: round_double_def R_def)
    also have "\<dots> = of_int (sgn m * R * d) * U56" by (simp add: sgnq ud)
    finally show ?thesis by (simp only: rn q_def)
  qed
qed

lemma bitlen_numeral: "bitlen (numeral k) = bitlen (numeral k div 2) + 1"
  by (subst compute_bitlen) simp

lemma bitlen_one: "bitlen 1 = 1"
  by (subst compute_bitlen) simp

section \<open>Random draws\<close>

lemma binade_half: "binade (1 / 2) = - 1"
  by (rule binade_unique) (simp_all add: power_int_minus)

lemma is_double_half: "is_double (1 / 2)"
  by (simp add: is_double_def round_double_def ulp_def binade_half rne_def Let_def power_int_minus floor_rat_numeral)

lemma valid_rng_half: "valid_rng rng_half"
  by (simp add: valid_rng_def rng_half_def is_double_half)

lemma generateTarget_range:
  assumes "valid_rng g"
  shows "10 \<le> fst (generateTarget g)" and "fst (generateTarget g) \<le> 25"
proof -
  from assms have d: "is_double (num (g 0))" "0 \<le> num (g 0)" "num (g 0) < 1"
    by (simp_all add: valid_rng_def)
  show "10 \<le> fst (generateTarget g)"
    using floor_times_16(1) [OF d] by (simp add: generateTarget_def Math_random_def)
  show "fst (generateTarget g) \<le> 25"
    using floor_times_16(2) [OF d] by (simp add: generateTarget_def Math_random_def)
qed

lemma getRandomValue_range:
  assumes "valid_rng g"
  shows "1 \<le> fst (getRandomValue g)" and "fst (getRandomValue g) \<le> 9"
proof -
  from assms have d: "is_double (num (g 0))" "0 \<le> num (g 0)" "num (g 0) < 1"
    by (simp_all add: valid_rng_def)
  show "1 \<le> fst (getRandomValue g)"
    using floor_times_9(1) [OF d] by (simp add: getRandomValue_def Math_random_def)
  show "fst (getRandomValue g) \<le> 9"
    using floor_times_9(2) [OF d] by (simp add: getRandomValue_def Math_random_def)
qed

lemma valid_rng_tail: "valid_rng g \<Longrightarrow> valid_rng (\<lambda>n. g (Suc n))"
  by (simp add: valid_rng_def)

section \<open>Row advancement\<close>

lemma shifted_overflow_iff:
  "list_ex (\<lambda>b. row b < 0) (map (\<lambda>b. b\<lparr>row := row b - 1\<rparr>) bs) \<longleftrightarrow> (\<exists>b \<in> set bs. row b \<le> 0)"
  by (force simp: list_ex_iff)

text \<open>
  C3: when some tile is at row 0, a row advancement sets the game-over flag, appends no
  new bottom row and leaves the board exactly as it was: the state differs from the one
  before in the flag alone, and no random draw is consumed.
\<close>

theorem addNewRow_overflow:
  assumes "\<exists>b \<in> set (blocks s). row b = 0"
  shows "addNewRow g s = (s\<lparr>isGameOver := True\<rparr>, g)"
proof -
  from assms have "\<exists>b \<in> set (blocks s). row b \<le> 0" by force
  then show ?thesis
    unfolding addNewRow_def Let_def shifted_overflow_iff by simp
qed

theorem addNewRow_overflow_witness:
  "(\<exists>b \<in> set (blocks state_top). row b = 0) \<and>
   addNewRow rng_half state_top = (state_top\<lparr>isGameOver := True\<rparr>, rng_half)"
proof -
  have h: "\<exists>b \<in> set (blocks state_top). row b = 0" by (simp add: state_top_def)
  from h addNewRow_overflow [OF h] show ?thesis by blast
qed

text \<open>What a row advancement keeps, and where the new tiles go.\<close>

lemma newBlocks_cells: "map cell (fst (newBlocks r cs g)) = map (\<lambda>c. (r, int c)) cs"
  by (induction cs arbitrary: g) (simp_all add: cell_def split_beta)

lemma newBlocks_rows: "b \<in> set (fst (newBlocks r cs g)) \<Longrightarrow> row b = r"
proof -
  assume "b \<in> set (fst (newBlocks r cs g))"
  then have "cell b \<in> set (map cell (fst (newBlocks r cs g)))" by simp
  then show ?thesis unfolding newBlocks_cells by (auto simp: cell_def)
qed

lemma newBlocks_distinct: "distinct cs \<Longrightarrow> distinct (map cell (fst (newBlocks r cs g)))"
  unfolding newBlocks_cells by (simp add: distinct_map inj_on_def)

lemma newBlocks_values:
  "valid_rng g \<Longrightarrow>
     (\<forall>b \<in> set (fst (newBlocks r cs g)). 1 \<le> value' b \<and> value' b \<le> 9)
     \<and> valid_rng (snd (newBlocks r cs g))"
proof (induction cs arbitrary: g)
  case Nil
  then show ?case by simp
next
  case (Cons c cs)
  let ?g1 = "snd (generateId g)"
  let ?g2 = "snd (getRandomValue ?g1)"
  have g1: "valid_rng ?g1"
    using Cons.prems by (simp add: generateId_def Math_random_def valid_rng_tail)
  then have g2: "valid_rng ?g2"
    by (simp add: getRandomValue_def Math_random_def valid_rng_tail)
  from getRandomValue_range [OF g1] Cons.IH [OF g2] show ?case
    by (simp add: split_beta)
qed

lemma addNewRow_blocks:
  "blocks (fst (addNewRow g s)) =
     (if \<exists>b \<in> set (blocks s). row b \<le> 0 then blocks s
      else map (\<lambda>b. b\<lparr>row := row b - 1\<rparr>) (blocks s) @ fst (newBlocks (int GRID_ROWS - 1) [0..<GRID_COLS] g))"
  unfolding addNewRow_def Let_def shifted_overflow_iff by (simp split: prod.splits)

lemma addNewRow_fields:
  "mode (fst (addNewRow g s)) = mode s"
  "selectedIds (fst (addNewRow g s)) = selectedIds s"
  "targetSum (fst (addNewRow g s)) = targetSum s"
  "score (fst (addNewRow g s)) = score s"
  "timeLeft (fst (addNewRow g s)) = timeLeft s"
  "isPaused (fst (addNewRow g s)) = isPaused s"
  by (simp_all add: addNewRow_def Let_def split_beta)

lemma addNewRow_ids: "id' ` set (blocks s) \<subseteq> id' ` set (blocks (fst (addNewRow g s)))"
proof -
  have "id' ` set (map (\<lambda>b. b\<lparr>row := row b - 1\<rparr>) (blocks s)) = id' ` set (blocks s)"
    by (simp add: image_image)
  then show ?thesis by (auto simp only: addNewRow_blocks set_append image_Un split: if_splits)
qed

lemma shifted_cells:
  "map cell (map (\<lambda>b. b\<lparr>row := row b - 1\<rparr>) bs) = map (\<lambda>p. (fst p - 1, snd p)) (map cell bs)"
  by (simp add: cell_def)

section \<open>The sum check\<close>

text \<open>
  C4: when the sum of the selected tile values exceeds the target, the check clears the
  selection and changes nothing else: score, board, target, mode and every other field
  keep their values.
\<close>

theorem checkSum_bust:
  assumes "targetSum s < currentSum s"
  shows "checkSum g s = (s\<lparr>selectedIds := []\<rparr>, g)"
  using assms by (simp add: checkSum_def)

theorem checkSum_bust_witness:
  "targetSum state_bust < currentSum state_bust \<and>
   checkSum rng_half state_bust = (state_bust\<lparr>selectedIds := []\<rparr>, rng_half)"
proof -
  have h: "targetSum state_bust < currentSum state_bust"
    by (simp add: state_bust_def currentSum_def)
  from h checkSum_bust [OF h] show ?thesis by blast
qed

text \<open>
  C10: in classic mode, when a match leaves a tile at row 0, the match is committed
  before the game ends: the score grows by ten per selected id, the selected tiles are
  removed, the selection is emptied, a new target is drawn, the timer is reset, and the
  board kept at game over is the board after the removal, not shifted.
\<close>

theorem checkSum_match_game_over:
  assumes "mode s = Some classic"
    and "selectedIds s \<noteq> []"
    and "currentSum s = targetSum s"
    and "\<exists>b \<in> set (blocks s). id' b \<notin> set (selectedIds s) \<and> row b = 0"
  shows "checkSum g s =
    (s\<lparr>score := score s + int (length (selectedIds s)) * 10,
       blocks := filter (\<lambda>b. id' b \<notin> set (selectedIds s)) (blocks s),
       selectedIds := [],
       targetSum := fst (generateTarget g),
       timeLeft := TIME_LIMIT,
       isGameOver := True\<rparr>,
     snd (generateTarget g))"
proof -
  let ?kept = "filter (\<lambda>b. id' b \<notin> set (selectedIds s)) (blocks s)"
  from assms(4) have "\<exists>b \<in> set ?kept. row b \<le> 0" by force
  then have ov: "list_ex (\<lambda>b. row b < 0) (map (\<lambda>b. b\<lparr>row := row b - 1\<rparr>) ?kept)"
    by (simp only: shifted_overflow_iff)
  show ?thesis
    using assms(1-3) ov
    by (simp add: checkSum_def addNewRow_def Let_def split: prod.splits)
qed

theorem checkSum_match_game_over_witness:
  "mode state_match_top = Some classic \<and> selectedIds state_match_top \<noteq> [] \<and>
   currentSum state_match_top = targetSum state_match_top \<and>
   (\<exists>b \<in> set (blocks state_match_top). id' b \<notin> set (selectedIds state_match_top) \<and> row b = 0) \<and>
   blocks (fst (checkSum rng_half state_match_top)) = [\<lparr>id' = ''c'', value' = 4, row = 0, col = 2\<rparr>] \<and>
   score (fst (checkSum rng_half state_match_top)) = 40 \<and>
   isGameOver (fst (checkSum rng_half state_match_top))"
proof -
  have h1: "mode state_match_top = Some classic" by (simp add: state_match_top_def)
  have h2: "selectedIds state_match_top \<noteq> []" by (simp add: state_match_top_def)
  have h3: "currentSum state_match_top = targetSum state_match_top"
    by (simp add: state_match_top_def currentSum_def)
  have h4: "\<exists>b \<in> set (blocks state_match_top). id' b \<notin> set (selectedIds state_match_top) \<and> row b = 0"
    by (simp add: state_match_top_def)
  have "blocks (fst (checkSum rng_half state_match_top)) = [\<lparr>id' = ''c'', value' = 4, row = 0, col = 2\<rparr>]"
    and "score (fst (checkSum rng_half state_match_top)) = 40"
    and "isGameOver (fst (checkSum rng_half state_match_top))"
    unfolding checkSum_match_game_over [OF h1 h2 h3 h4]
    by (simp_all add: state_match_top_def)
  with h1 h2 h3 h4 show ?thesis by blast
qed

text \<open>The new bottom row, tile by tile, and the draws it leaves.\<close>

lemma newRow_explicit:
  "newBlocks r [0..<GRID_COLS] g =
     (map (\<lambda>k. \<lparr>id' = str36 (g (2 * k)), value' = \<lfloor>round_double (num (g (2 * k + 1)) * 9)\<rfloor> + 1,
                  row = r, col = int k\<rparr>) [0..<6],
      \<lambda>n. g (n + 12))"
  by (simp add: GRID_COLS_def upt_rec split_beta generateId_def getRandomValue_def Math_random_def
      eval_nat_numeral)

text \<open>
  C1: whenever the selection is not empty and its sum equals the target, the check
  fires. It adds ten per selected id to the score, and in time mode also the ceiling of
  the time left; removes every selected tile; empties the selection; draws a new target,
  which lies between 10 and 25; and resets the timer to \<open>TIME_LIMIT\<close>. In classic
  mode it then performs one row advancement on that state: if a remaining tile is at
  row 0 the game is over and the board stays as it is after the removal; otherwise every
  remaining tile moves up one row and six new tiles, with values between 1 and 9, fill
  columns 0 to 5 of row 9. In the other modes no row is advanced.
\<close>

theorem checkSum_match:
  assumes "valid_rng g" and "selectedIds s \<noteq> []" and "currentSum s = targetSum s"
  shows
    "let t = \<lfloor>round_double (num (g 0) * 16)\<rfloor> + 10;
         kept = filter (\<lambda>b. id' b \<notin> set (selectedIds s)) (blocks s);
         m = s\<lparr>score := score s + int (length (selectedIds s)) * 10
                     + (if mode s = Some time then \<lceil>timeLeft s\<rceil> else 0),
               blocks := kept,
               selectedIds := [],
               targetSum := t,
               timeLeft := TIME_LIMIT\<rparr>;
         newRow = map (\<lambda>k. \<lparr>id' = str36 (g (2 * k + 1)),
                              value' = \<lfloor>round_double (num (g (2 * k + 2)) * 9)\<rfloor> + 1,
                              row = 9, col = int k\<rparr>) [0..<6]
     in 10 \<le> t \<and> t \<le> 25 \<and>
        (\<forall>b \<in> set newRow. 1 \<le> value' b \<and> value' b \<le> 9) \<and>
        checkSum g s =
          (if mode s = Some classic then
             (if \<exists>b \<in> set kept. row b \<le> 0 then (m\<lparr>isGameOver := True\<rparr>, \<lambda>n. g (Suc n))
              else (m\<lparr>blocks := map (\<lambda>b. b\<lparr>row := row b - 1\<rparr>) kept @ newRow\<rparr>,
                    \<lambda>n. g (n + 13)))
           else (m, \<lambda>n. g (Suc n)))"
proof -
  define t where "t = \<lfloor>round_double (num (g 0) * 16)\<rfloor> + 10"
  define kept where "kept = filter (\<lambda>b. id' b \<notin> set (selectedIds s)) (blocks s)"
  define m where "m = s\<lparr>score := score s + int (length (selectedIds s)) * 10
                     + (if mode s = Some time then \<lceil>timeLeft s\<rceil> else 0),
               blocks := kept, selectedIds := [], targetSum := t, timeLeft := TIME_LIMIT\<rparr>"
  define newRow where "newRow = map (\<lambda>k. \<lparr>id' = str36 (g (2 * k + 1)),
                              value' = \<lfloor>round_double (num (g (2 * k + 2)) * 9)\<rfloor> + 1,
                              row = 9, col = int k\<rparr>) [0..<6]"
  have d: "is_double (num (g n))" "0 \<le> num (g n)" "num (g n) < 1" for n
    using assms(1) by (simp_all add: valid_rng_def)
  have gt: "generateTarget g = (t, \<lambda>n. g (Suc n))"
    by (simp add: generateTarget_def Math_random_def t_def)
  have tr: "10 \<le> t \<and> t \<le> 25"
    using floor_times_16 [OF d, of 0] by (simp add: t_def)
  have vr: "\<forall>b \<in> set newRow. 1 \<le> value' b \<and> value' b \<le> 9"
  proof
    fix b assume "b \<in> set newRow"
    then obtain k where "value' b = \<lfloor>round_double (num (g (2 * k + 2)) * 9)\<rfloor> + 1"
      by (auto simp: newRow_def)
    with floor_times_9 [OF d, of "2 * k + 2"] show "1 \<le> value' b \<and> value' b \<le> 9" by simp
  qed
  have nr: "newBlocks (int GRID_ROWS - 1) [0..<GRID_COLS] (\<lambda>n. g (Suc n)) = (newRow, \<lambda>n. g (n + 13))"
    unfolding newRow_explicit newRow_def by (simp add: GRID_ROWS_def add.commute)
  have adv: "addNewRow (\<lambda>n. g (Suc n)) m =
      (if \<exists>b \<in> set kept. row b \<le> 0 then (m\<lparr>isGameOver := True\<rparr>, \<lambda>n. g (Suc n))
       else (m\<lparr>blocks := map (\<lambda>b. b\<lparr>row := row b - 1\<rparr>) kept @ newRow\<rparr>, \<lambda>n. g (n + 13)))"
    unfolding addNewRow_def Let_def shifted_overflow_iff nr by (simp add: m_def)
  have "checkSum g s = (if mode s = Some classic then addNewRow (\<lambda>n. g (Suc n)) m else (m, \<lambda>n. g (Suc n)))"
    using assms(2,3) by (simp add: checkSum_def Let_def gt m_def kept_def)
  then have "checkSum g s =
          (if mode s = Some classic then
             (if \<exists>b \<in> set kept. row b \<le> 0 then (m\<lparr>isGameOver := True\<rparr>, \<lambda>n. g (Suc n))
              else (m\<lparr>blocks := map (\<lambda>b. b\<lparr>row := row b - 1\<rparr>) kept @ newRow\<rparr>,
                    \<lambda>n. g (n + 13)))
           else (m, \<lambda>n. g (Suc n)))"
    by (simp only: adv)
  with tr vr show ?thesis
    unfolding Let_def t_def [symmetric] kept_def [symmetric] m_def [symmetric] newRow_def [symmetric]
    by blast
qed

theorem checkSum_match_witness:
  "valid_rng rng_half \<and>
   selectedIds state_match_classic \<noteq> [] \<and>
   currentSum state_match_classic = targetSum state_match_classic \<and>
   mode state_match_classic = Some classic \<and>
   score (fst (checkSum rng_half state_match_classic)) = 40 \<and>
   map (\<lambda>b. (row b, col b)) (blocks (fst (checkSum rng_half state_match_classic))) =
     [(7, 1), (9, 0), (9, 1), (9, 2), (9, 3), (9, 4), (9, 5)] \<and>
   map id' (blocks (fst (checkSum rng_half state_match_classic))) =
     [''c'', ''aa'', ''aaaa'', ''aaaaaa'', ''aaaaaaaa'', ''aaaaaaaaaa'', ''aaaaaaaaaaaa''] \<and>
   selectedIds (fst (checkSum rng_half state_match_classic)) = [] \<and>
   timeLeft (fst (checkSum rng_half state_match_classic)) = 10 \<and>
   \<not> isGameOver (fst (checkSum rng_half state_match_classic)) \<and>
   10 \<le> targetSum (fst (checkSum rng_half state_match_classic)) \<and>
   targetSum (fst (checkSum rng_half state_match_classic)) \<le> 25"
proof -
  have h2: "selectedIds state_match_classic \<noteq> []" by (simp add: state_match_classic_def)
  have h3: "currentSum state_match_classic = targetSum state_match_classic"
    by (simp add: state_match_classic_def currentSum_def)
  have h4: "mode state_match_classic = Some classic" by (simp add: state_match_classic_def)
  have k: "filter (\<lambda>b. id' b \<notin> set (selectedIds state_match_classic)) (blocks state_match_classic)
      = [\<lparr>id' = ''c'', value' = 2, row = 8, col = 1\<rparr>]"
    by (simp add: state_match_classic_def)
  note r = checkSum_match [OF valid_rng_half h2 h3, unfolded Let_def k h4]
  from r have t: "10 \<le> \<lfloor>round_double (num (rng_half 0) * 16)\<rfloor> + 10"
      "\<lfloor>round_double (num (rng_half 0) * 16)\<rfloor> + 10 \<le> 25"
    by blast+
  from r have e: "checkSum rng_half state_match_classic =
      (state_match_classic
         \<lparr>score := score state_match_classic + int (length (selectedIds state_match_classic)) * 10 + 0,
          blocks := [\<lparr>id' = ''c'', value' = 2, row = 8, col = 1\<rparr>],
          selectedIds := [],
          targetSum := \<lfloor>round_double (num (rng_half 0) * 16)\<rfloor> + 10,
          timeLeft := TIME_LIMIT,
          blocks := map (\<lambda>b. b\<lparr>row := row b - 1\<rparr>) [\<lparr>id' = ''c'', value' = 2, row = 8, col = 1\<rparr>] @
            map (\<lambda>k. \<lparr>id' = str36 (rng_half (2 * k + 1)),
                         value' = \<lfloor>round_double (num (rng_half (2 * k + 2)) * 9)\<rfloor> + 1,
                         row = 9, col = int k\<rparr>) [0..<6]\<rparr>,
       \<lambda>n. rng_half (n + 13))"
    by simp
  have "score (fst (checkSum rng_half state_match_classic)) = 40"
    and "map (\<lambda>b. (row b, col b)) (blocks (fst (checkSum rng_half state_match_classic))) =
      [(7, 1), (9, 0), (9, 1), (9, 2), (9, 3), (9, 4), (9, 5)]"
    and "map id' (blocks (fst (checkSum rng_half state_match_classic))) =
      [''c'', ''aa'', ''aaaa'', ''aaaaaa'', ''aaaaaaaa'', ''aaaaaaaaaa'', ''aaaaaaaaaaaa'']"
    and "selectedIds (fst (checkSum rng_half state_match_classic)) = []"
    and "timeLeft (fst (checkSum rng_half state_match_classic)) = 10"
    and "\<not> isGameOver (fst (checkSum rng_half state_match_classic))"
    and "targetSum (fst (checkSum rng_half state_match_classic)) =
      \<lfloor>round_double (num (rng_half 0) * 16)\<rfloor> + 10"
    unfolding e
    by (simp_all add: state_match_classic_def TIME_LIMIT_def upt_rec rng_half_def eval_nat_numeral)
  with t h2 h3 h4 valid_rng_half show ?thesis by simp
qed

lemma checkSum_fields:
  "mode (fst (checkSum g s)) = mode s"
  "isPaused (fst (checkSum g s)) = isPaused s"
  by (simp_all add: checkSum_def Let_def split_beta addNewRow_fields)

lemma checkSum_empty: "selectedIds s = [] \<Longrightarrow> checkSum g s = (s, g)"
  by (simp add: checkSum_def)

section \<open>The timer\<close>

lemma binade_twentieth: "binade (1 / 20) = - 5"
  by (rule binade_unique) (simp_all add: power_int_minus)

lemma twentieth_value: "round_double (1 / 20) = 3602879701896397 / 72057594037927936"
  by (simp add: round_double_def ulp_def binade_twentieth rne_def Let_def power_int_minus floor_rat_numeral)

lemma binade_twentieth_value: "binade (3602879701896397 / 72057594037927936) = - 5"
  by (rule binade_unique) (simp_all add: power_int_minus)

lemma binade_minus: "binade (- q) = binade q"
  by (simp add: binade_def)

lemma twentieth_minus_tenth: "round_double (round_double (1 / 20) - tenth) = - (3602879701896397 / 72057594037927936)"
  by (simp add: twentieth_value tenth_value)
     (simp add: round_double_def ulp_def binade_minus binade_twentieth_value rne_def Let_def power_int_minus floor_rat_numeral)

text \<open>
  C2 (amended): on a timer tick in time mode, with the game neither over nor paused, the
  test is made on the time left before the tick. If that is at most 0, a row advancement
  is forced in this tick and the time left is reset to exactly \<open>TIME_LIMIT\<close>.
  Otherwise the time left becomes the double nearest to the old value minus 0.1, the
  decrement being the constant 0.1, and nothing else changes: no row advancement takes
  place in this tick even when the new value is zero or negative.
\<close>

theorem timerTick_time_mode:
  assumes "mode s = Some time" and "\<not> isGameOver s" and "\<not> isPaused s"
  shows "timerTick g s =
    (if timeLeft s \<le> 0
     then ((fst (addNewRow g s))\<lparr>timeLeft := TIME_LIMIT\<rparr>, snd (addNewRow g s))
     else (s\<lparr>timeLeft := round_double (timeLeft s - tenth)\<rparr>, g))"
  using assms by (simp add: timerTick_def split: prod.splits)

theorem timerTick_time_mode_witness:
  "mode state_low = Some time \<and> \<not> isGameOver state_low \<and> \<not> isPaused state_low \<and>
   timerTick rng_half state_low =
     (state_low\<lparr>timeLeft := round_double (timeLeft state_low - tenth)\<rparr>, rng_half)"
proof -
  have h: "mode state_low = Some time" "\<not> isGameOver state_low" "\<not> isPaused state_low"
    by (simp_all add: state_low_def)
  have pos: "\<not> timeLeft state_low \<le> 0" by (simp add: state_low_def twentieth_value)
  from timerTick_time_mode [OF h, of rng_half] pos h show ?thesis by simp
qed

text \<open>
  The claim as written fails on its own scenario. From 0.05 the tick yields about
  -0.05: the time left is negative, it is not reset to \<open>TIME_LIMIT\<close>, and the board
  is not advanced, although an advancement would have changed it.
\<close>

theorem timerTick_low_counterexample:
  "mode state_low = Some time \<and> \<not> isGameOver state_low \<and> \<not> isPaused state_low \<and>
   timeLeft state_low = round_double (1 / 20) \<and>
   round_double (timeLeft state_low - tenth) \<le> 0 \<and>
   timeLeft (fst (timerTick rng_half state_low)) < 0 \<and>
   timeLeft (fst (timerTick rng_half state_low)) \<noteq> TIME_LIMIT \<and>
   blocks (fst (timerTick rng_half state_low)) = blocks state_low \<and>
   blocks (fst (addNewRow rng_half state_low)) \<noteq> blocks state_low"
proof -
  have pos: "\<not> round_double (1 / 20) \<le> 0" by (simp add: twentieth_value)
  have t: "fst (timerTick rng_half state_low) =
      state_low\<lparr>timeLeft := - (3602879701896397 / 72057594037927936)\<rparr>"
    using pos by (simp add: timerTick_def state_low_def twentieth_minus_tenth)
  have a: "blocks (fst (addNewRow rng_half state_low)) \<noteq> blocks state_low"
    by (simp add: addNewRow_def state_low_def Let_def split: prod.splits)
  have d: "round_double (timeLeft state_low - tenth) \<le> 0"
    by (simp add: state_low_def twentieth_minus_tenth)
  show ?thesis
    unfolding t using a d by (simp add: state_low_def TIME_LIMIT_def)
qed

section \<open>Starting a game\<close>

lemma startGame_blocks:
  "blocks (fst (startGame m g s)) =
     fst (initialBlocks [GRID_ROWS - INITIAL_ROWS..<GRID_ROWS] (snd (generateTarget g)))"
  by (simp add: startGame_def split: prod.splits)

lemma startGame_fields:
  "mode (fst (startGame m g s)) = Some m"
  "\<not> isGameOver (fst (startGame m g s))"
  "score (fst (startGame m g s)) = 0"
  "selectedIds (fst (startGame m g s)) = []"
  "timeLeft (fst (startGame m g s)) = TIME_LIMIT"
  "targetSum (fst (startGame m g s)) = fst (generateTarget g)"
  "isPaused (fst (startGame m g s)) = isPaused s"
  by (simp_all add: startGame_def split_beta)

lemma startGame_score: "score (fst (startGame m g s)) = 0"
  by (simp add: startGame_def split_beta)

lemma step_StartGame: "step (StartGame m) (s, g) = startGame m g s"
  by (simp add: step_def split_beta checkSum_empty startGame_def)

lemma initialBlocks_cells:
  "map cell (fst (initialBlocks rs g)) = concat (map (\<lambda>r. map (\<lambda>c. (int r, int c)) [0..<GRID_COLS]) rs)"
  by (induction rs arbitrary: g) (simp_all add: newBlocks_cells split_beta)

lemma startGame_cells:
  "map cell (blocks (fst (startGame m g s))) =
     concat (map (\<lambda>r. map (\<lambda>c. (int r, int c)) [0..<GRID_COLS]) [GRID_ROWS - INITIAL_ROWS..<GRID_ROWS])"
  unfolding startGame_blocks by (rule initialBlocks_cells)

lemma startGame_length: "length (blocks (fst (startGame m g s))) = INITIAL_ROWS * GRID_COLS"
proof -
  have "length (map cell (blocks (fst (startGame m g s)))) = INITIAL_ROWS * GRID_COLS"
    unfolding startGame_blocks initialBlocks_cells
    by (simp add: length_concat GRID_ROWS_def INITIAL_ROWS_def GRID_COLS_def upt_conv_Cons)
  then show ?thesis by simp
qed

lemma startGame_first_block:
  "\<exists>b bs. blocks (fst (startGame m g s)) = b # bs \<and> id' b = str36 (g 1)"
proof -
  have rs: "[GRID_ROWS - INITIAL_ROWS..<GRID_ROWS] = 6 # [7..<10]"
    by (simp add: GRID_ROWS_def INITIAL_ROWS_def upt_conv_Cons)
  have cs: "[0..<GRID_COLS] = 0 # [1..<6]"
    by (simp add: GRID_COLS_def upt_conv_Cons)
  show ?thesis
    unfolding startGame_blocks rs
    by (simp add: cs split_beta generateId_def generateTarget_def Math_random_def)
qed

lemma initialBlocks_values:
  "valid_rng g \<Longrightarrow>
     (\<forall>b \<in> set (fst (initialBlocks rs g)). 1 \<le> value' b \<and> value' b \<le> 9)
     \<and> valid_rng (snd (initialBlocks rs g))"
proof (induction rs arbitrary: g)
  case Nil
  then show ?case by simp
next
  case (Cons r rs)
  let ?g1 = "snd (newBlocks (int r) [0..<GRID_COLS] g)"
  from newBlocks_values [OF Cons.prems, of "int r" "[0..<GRID_COLS]"]
  have v: "\<forall>b \<in> set (fst (newBlocks (int r) [0..<GRID_COLS] g)). 1 \<le> value' b \<and> value' b \<le> 9"
    and g1: "valid_rng ?g1" by blast+
  from v Cons.IH [OF g1] show ?case by (auto simp: split_beta)
qed

lemma startGame_values:
  assumes "valid_rng g"
  shows "\<forall>b \<in> set (blocks (fst (startGame m g s))). 1 \<le> value' b \<and> value' b \<le> 9"
proof -
  have "valid_rng (snd (generateTarget g))"
    using assms by (simp add: generateTarget_def Math_random_def valid_rng_tail)
  from initialBlocks_values [OF this] show ?thesis unfolding startGame_blocks by blast
qed

lemma handle_isPaused:
  "isPaused (fst (handle e c)) =
     (case e of TogglePause \<Rightarrow> \<not> isPaused (fst c) | Resume \<Rightarrow> False | _ \<Rightarrow> isPaused (fst c))"
  by (cases c; cases e)
     (simp_all add: startGame_def timerTick_def handleBlockClick_def split_beta addNewRow_fields)

lemma step_isPaused:
  "isPaused (fst (step e c)) =
     (case e of TogglePause \<Rightarrow> \<not> isPaused (fst c) | Resume \<Rightarrow> False | _ \<Rightarrow> isPaused (fst c))"
  by (simp add: step_def split_beta checkSum_fields handle_isPaused)


text \<open>
  C5: \<open>startGame\<close> is claimed to reset the pause flag among the rest of the session
  state. It resets the mode, the game-over flag, the score, the selection, the target,
  the timer and the board (the lemmas above), but never writes the pause flag. A game
  that is paused, left for the menu and started again is still paused.
\<close>

theorem startGame_after_quit_paused:
  "isPaused (fst (run [StartGame classic, TogglePause, ToMenu, StartGame classic] (initialState, rng_half)))"
  by (simp add: step_isPaused initialState_def)

section \<open>No two tiles in one cell\<close>

lemma cellsOk_advance:
  assumes "cellsOk bs"
  shows "cellsOk (map (\<lambda>b. b\<lparr>row := row b - 1\<rparr>) bs @ fst (newBlocks (int GRID_ROWS - 1) [0..<GRID_COLS] g))"
proof -
  let ?sh = "map (\<lambda>b. b\<lparr>row := row b - 1\<rparr>) bs"
  let ?new = "fst (newBlocks (int GRID_ROWS - 1) [0..<GRID_COLS] g)"
  from assms have d: "distinct (map cell bs)" and r: "\<forall>b \<in> set bs. row b < int GRID_ROWS"
    by (simp_all add: cellsOk_def)
  have d1: "distinct (map cell ?sh)"
    unfolding shifted_cells using d by (simp add: distinct_map inj_on_def prod_eq_iff)
  have d2: "distinct (map cell ?new)" by (rule newBlocks_distinct) simp
  have r1: "\<forall>b \<in> set ?sh. row b < int GRID_ROWS - 1" using r by auto
  have r2: "\<forall>b \<in> set ?new. row b = int GRID_ROWS - 1" by (auto dest: newBlocks_rows)
  have ne: "cell x \<noteq> cell y" if "x \<in> set ?sh" and "y \<in> set ?new" for x y
  proof -
    from r1 that(1) have "row x < int GRID_ROWS - 1" by blast
    moreover from r2 that(2) have "row y = int GRID_ROWS - 1" by blast
    ultimately show ?thesis by (auto simp: cell_def)
  qed
  have dis: "set (map cell ?sh) \<inter> set (map cell ?new) = {}"
    using ne unfolding set_map by blast
  have "\<forall>b \<in> set (?sh @ ?new). row b < int GRID_ROWS" using r1 r2 by auto
  with d1 d2 dis show ?thesis by (simp add: cellsOk_def)
qed

lemma cellsOk_filter: "cellsOk bs \<Longrightarrow> cellsOk (filter P bs)"
  by (simp add: cellsOk_def distinct_map_filter)

lemma addNewRow_cellsOk: "cellsOk (blocks s) \<Longrightarrow> cellsOk (blocks (fst (addNewRow g s)))"
  by (simp add: addNewRow_blocks cellsOk_advance)

lemma checkSum_cellsOk:
  assumes "cellsOk (blocks s)"
  shows "cellsOk (blocks (fst (checkSum g s)))"
proof -
  have k: "cellsOk (filter (\<lambda>b. id' b \<notin> set (selectedIds s)) (blocks s))"
    using assms by (rule cellsOk_filter)
  show ?thesis
    using assms k by (auto simp: checkSum_def Let_def split: prod.splits intro!: addNewRow_cellsOk)
qed

lemma initialBlocks_cellsOk:
  assumes "distinct rs" and "\<forall>r \<in> set rs. r < GRID_ROWS"
  shows "cellsOk (fst (initialBlocks rs g))"
proof -
  let ?bs = "fst (initialBlocks rs g)"
  have inj: "inj_on (\<lambda>r. map (\<lambda>c. (int r, int c)) [0..<GRID_COLS]) (set rs)"
  proof (rule inj_onI)
    fix x y
    assume "map (\<lambda>c. (int x, int c)) [0..<GRID_COLS] = map (\<lambda>c. (int y, int c)) [0..<GRID_COLS]"
    then have "\<forall>c \<in> set [0..<GRID_COLS]. (int x, int c) = (int y, int c)"
      by (simp only: map_eq_conv)
    moreover have "0 \<in> set [0..<GRID_COLS]" by (simp add: GRID_COLS_def)
    ultimately have "(int x, int 0) = (int y, int 0)" by blast
    then show "x = y" by simp
  qed
  have "distinct (concat (map (\<lambda>r. map (\<lambda>c. (int r, int c)) [0..<GRID_COLS]) rs))"
  proof (rule distinct_concat)
    show "distinct (map (\<lambda>r. map (\<lambda>c. (int r, int c)) [0..<GRID_COLS]) rs)"
      using assms(1) inj by (simp add: distinct_map)
  next
    fix ys assume "ys \<in> set (map (\<lambda>r. map (\<lambda>c. (int r, int c)) [0..<GRID_COLS]) rs)"
    then show "distinct ys" by (auto simp: distinct_map inj_on_def)
  next
    fix ys zs
    assume "ys \<in> set (map (\<lambda>r. map (\<lambda>c. (int r, int c)) [0..<GRID_COLS]) rs)"
      and "zs \<in> set (map (\<lambda>r. map (\<lambda>c. (int r, int c)) [0..<GRID_COLS]) rs)"
      and "ys \<noteq> zs"
    then show "set ys \<inter> set zs = {}" by auto
  qed
  then have d: "distinct (map cell ?bs)" by (simp only: initialBlocks_cells)
  have "\<forall>b \<in> set ?bs. row b < int GRID_ROWS"
  proof
    fix b assume "b \<in> set ?bs"
    then have "cell b \<in> set (map cell ?bs)" by simp
    then show "row b < int GRID_ROWS"
      unfolding initialBlocks_cells using assms(2) by (auto simp: cell_def)
  qed
  with d show ?thesis by (simp add: cellsOk_def)
qed

lemma startGame_cellsOk: "cellsOk (blocks (fst (startGame m g s)))"
  unfolding startGame_blocks by (rule initialBlocks_cellsOk) simp_all

lemma timerTick_cellsOk: "cellsOk (blocks s) \<Longrightarrow> cellsOk (blocks (fst (timerTick g s)))"
  by (auto simp: timerTick_def split: prod.splits dest: addNewRow_cellsOk [where g = g])

lemma handle_cellsOk: "cellsOk (blocks (fst c)) \<Longrightarrow> cellsOk (blocks (fst (handle e c)))"
  by (cases c; cases e) (simp_all add: startGame_cellsOk timerTick_cellsOk handleBlockClick_def)

lemma step_cellsOk: "cellsOk (blocks (fst c)) \<Longrightarrow> cellsOk (blocks (fst (step e c)))"
  using checkSum_cellsOk [of "fst (handle e c)" "snd (handle e c)"] handle_cellsOk [of c e]
  by (simp add: step_def split_beta)

lemma run_cellsOk: "cellsOk (blocks (fst c)) \<Longrightarrow> cellsOk (blocks (fst (run es c)))"
  by (induction es arbitrary: c) (simp_all add: step_cellsOk)


text \<open>
  C8: in every state reached from the initial one by any sequence of events, whatever
  the random draws, no two tiles of the board occupy the same (row, column) cell.
\<close>

theorem no_overlap:
  "distinct (map cell (blocks (fst (run es (initialState, g)))))"
proof -
  have "cellsOk (blocks (fst (initialState, g)))" by (simp add: initialState_def cellsOk_def)
  then have "cellsOk (blocks (fst (run es (initialState, g))))" by (rule run_cellsOk)
  then show ?thesis by (simp add: cellsOk_def)
qed

theorem no_overlap_witness:
  "length (blocks (fst (run [StartGame classic] (initialState, rng_half)))) = 24 \<and>
   distinct (map cell (blocks (fst (run [StartGame classic] (initialState, rng_half)))))"
proof -
  have "length (blocks (fst (run [StartGame classic] (initialState, rng_half)))) = 24"
    by (simp add: step_StartGame startGame_length INITIAL_ROWS_def GRID_COLS_def)
  with no_overlap [of "[StartGame classic]" rng_half] show ?thesis by simp
qed

section \<open>The range of the time left\<close>

lemma tenth_pos: "0 < tenth"
  by (simp add: tenth_value)

lemma timeOk_limit: "timeOk (s\<lparr>timeLeft := TIME_LIMIT\<rparr>)"
  using tenth_pos by (simp add: timeOk_def TIME_LIMIT_def)

lemma checkSum_timeOk: "timeOk s \<Longrightarrow> timeOk (fst (checkSum g s))"
  using tenth_pos
  by (simp add: checkSum_def Let_def split_beta timeOk_def addNewRow_fields TIME_LIMIT_def)

lemma timerTick_timeOk:
  assumes "timeOk s"
  shows "timeOk (fst (timerTick g s))"
proof (cases "mode s = Some time \<and> \<not> isGameOver s \<and> \<not> isPaused s")
  case False
  with assms show ?thesis by (auto simp: timerTick_def)
next
  case active: True
  show ?thesis
  proof (cases "timeLeft s \<le> 0")
    case True
    with active show ?thesis
      using tenth_pos by (simp add: timerTick_def split_beta timeOk_def TIME_LIMIT_def)
  next
    case False
    with assms have "0 < timeLeft s" "timeLeft s \<le> 10" by (simp_all add: timeOk_def TIME_LIMIT_def)
    from tick_bounds [OF this] active False show ?thesis
      by (simp add: timerTick_def timeOk_def TIME_LIMIT_def)
  qed
qed

lemma startGame_timeOk: "timeOk (fst (startGame m g s))"
  using tenth_pos by (simp add: startGame_def split_beta timeOk_def TIME_LIMIT_def)

lemma handle_timeOk: "timeOk (fst c) \<Longrightarrow> timeOk (fst (handle e c))"
  by (cases c; cases e)
     (simp_all add: startGame_timeOk timerTick_timeOk, simp_all add: timeOk_def handleBlockClick_def)

lemma step_timeOk: "timeOk (fst c) \<Longrightarrow> timeOk (fst (step e c))"
  using checkSum_timeOk [of "fst (handle e c)" "snd (handle e c)"] handle_timeOk [of c e]
  by (simp add: step_def split_beta)

lemma run_timeOk: "timeOk (fst c) \<Longrightarrow> timeOk (fst (run es c))"
  by (induction es arbitrary: c) (simp_all add: step_timeOk)

lemma initial_timeOk: "timeOk (fst (initialState, g))"
  using tenth_pos by (simp add: initialState_def timeOk_def TIME_LIMIT_def)


text \<open>
  C7 (amended): in every state reached from the initial one by any sequence of events,
  the time left lies between minus the timer's decrement 0.1 and \<open>TIME_LIMIT\<close>. It is
  not clamped at 0.
\<close>

theorem timeLeft_bounds:
  "- tenth \<le> timeLeft (fst (run es (initialState, g))) \<and>
   timeLeft (fst (run es (initialState, g))) \<le> TIME_LIMIT"
  using run_timeOk [OF initial_timeOk, of es g] by (simp add: timeOk_def)

theorem timeLeft_bounds_witness:
  "- tenth \<le> timeLeft (fst (run (StartGame time # replicate 101 TimerTick) (initialState, rng_half))) \<and>
   timeLeft (fst (run (StartGame time # replicate 101 TimerTick) (initialState, rng_half))) \<le> TIME_LIMIT"
  by (rule timeLeft_bounds)


text \<open>
  The lower bound 0 of the claim fails. One hundred decrements of 10 by the double 0.1
  leave \<open>677 / 2^55\<close>, which is positive, so the next tick subtracts once more.
\<close>

lemma tenth_scaled: "tenth = of_int 7205759403792794 * U56"
  by (simp add: tenth_value U56_def)

lemma limit_scaled: "TIME_LIMIT = of_int 720575940379279360 * U56"
  by (simp add: TIME_LIMIT_def U56_def)

lemma tick_scaled: "round_double (of_int n * U56 - tenth) = of_int (tick56 n) * U56"
proof -
  have "of_int n * U56 - tenth = of_int (n - 7205759403792794) * U56"
    unfolding tenth_scaled by (simp only: of_int_diff left_diff_distrib)
  then show ?thesis by (simp only: round_double_scaled tick56_def)
qed

lemma countdown_numeral: "countdown (numeral k) n = (if 0 < n then countdown (pred_numeral k) (tick56 n) else None)"
  by (simp add: numeral_eq_Suc)

lemma countdown_101: "countdown 101 720575940379279360 = Some (- 7205759403791440)"
  by (simp add: countdown_numeral tick56_def rnd56_def Let_def bitlen_numeral bitlen_one)

lemma ticks_run:
  assumes "mode s = Some time" and "\<not> isGameOver s" and "\<not> isPaused s"
    and "selectedIds s = []" and "timeLeft s = of_int n * U56" and "countdown k n = Some n'"
  shows "run (replicate k TimerTick) (s, g) = (s\<lparr>timeLeft := of_int n' * U56\<rparr>, g)"
  using assms
proof (induction k arbitrary: s n)
  case 0
  then show ?case by simp
next
  case (Suc k)
  from Suc.prems(6) have n: "0 < n" and c: "countdown k (tick56 n) = Some n'"
    by (simp_all split: if_splits)
  have "0 < of_int n * U56" using n U56_pos by simp
  then have pos: "\<not> timeLeft s \<le> 0" by (simp add: Suc.prems(5))
  let ?s1 = "s\<lparr>timeLeft := of_int (tick56 n) * U56\<rparr>"
  have "timerTick g s = (?s1, g)"
    using Suc.prems(1-3) pos by (simp add: timerTick_def Suc.prems(5) tick_scaled)
  then have st: "step TimerTick (s, g) = (?s1, g)"
    using Suc.prems(4) by (simp add: step_def checkSum_empty)
  have "run (replicate k TimerTick) (?s1, g) = (?s1\<lparr>timeLeft := of_int n' * U56\<rparr>, g)"
    using Suc.prems(1-4) c by (intro Suc.IH) simp_all
  then show ?case by (simp add: st)
qed

theorem timeLeft_negative_counterexample:
  "timeLeft (fst (run (StartGame time # replicate 101 TimerTick) (initialState, rng_half))) < 0"
proof -
  let ?c = "startGame time rng_half initialState"
  have "run (replicate 101 TimerTick) (fst ?c, snd ?c) =
      ((fst ?c)\<lparr>timeLeft := of_int (- 7205759403791440) * U56\<rparr>, snd ?c)"
    by (rule ticks_run [OF _ _ _ _ _ countdown_101])
       (simp_all add: startGame_fields limit_scaled initialState_def)
  then have "timeLeft (fst (run (StartGame time # replicate 101 TimerTick) (initialState, rng_half)))
      = of_int (- 7205759403791440) * U56"
    by (simp add: step_StartGame)
  also have "\<dots> < 0" using U56_pos by (simp add: mult_less_0_iff)
  finally show ?thesis .
qed

section \<open>The score\<close>

lemma ceiling_timeOk: "timeOk s \<Longrightarrow> 0 \<le> \<lceil>timeLeft s\<rceil>"
proof -
  assume "timeOk s"
  then have "- tenth \<le> timeLeft s" by (simp add: timeOk_def)
  moreover have "tenth < 1" by (simp add: tenth_value)
  ultimately have "- 1 < timeLeft s" by linarith
  then show ?thesis by simp
qed

lemma checkSum_score: "timeOk s \<Longrightarrow> score s \<le> score (fst (checkSum g s))"
  using ceiling_timeOk [of s]
  by (simp add: checkSum_def Let_def split_beta addNewRow_fields)

lemma timerTick_score: "score (fst (timerTick g s)) = score s"
  by (simp add: timerTick_def split_beta addNewRow_fields)

lemma handle_score:
  "(\<forall>m. e \<noteq> StartGame m) \<Longrightarrow> score (fst (handle e c)) = score (fst c)"
  by (cases c; cases e) (simp_all add: timerTick_score handleBlockClick_def)

lemma step_score:
  assumes "timeOk (fst c)" and "\<forall>m. e \<noteq> StartGame m"
  shows "score (fst c) \<le> score (fst (step e c))"
proof -
  have "timeOk (fst (handle e c))" using assms(1) by (rule handle_timeOk)
  then have "score (fst (handle e c)) \<le> score (fst (checkSum (snd (handle e c)) (fst (handle e c))))"
    by (rule checkSum_score)
  then show ?thesis using handle_score [OF assms(2), of c] by (simp add: step_def split_beta)
qed

lemma run_score:
  assumes "timeOk (fst c)" and "\<forall>m. StartGame m \<notin> set es"
  shows "score (fst c) \<le> score (fst (run es c))"
  using assms
proof (induction es arbitrary: c)
  case Nil
  then show ?case by simp
next
  case (Cons e es)
  then have e: "\<forall>m. e \<noteq> StartGame m" and es: "\<forall>m. StartGame m \<notin> set es" by auto
  have "score (fst c) \<le> score (fst (step e c))" using Cons.prems(1) e by (rule step_score)
  also have "\<dots> \<le> score (fst (run es (step e c)))"
    using step_timeOk [OF Cons.prems(1)] es by (rule Cons.IH)
  finally show ?case by simp
qed

lemma step_score_nonneg:
  assumes "timeOk (fst c)" and "0 \<le> score (fst c)"
  shows "0 \<le> score (fst (step e c))"
proof (cases "\<exists>m. e = StartGame m")
  case True
  then obtain m where e: "e = StartGame m" by blast
  have "timeOk (fst (handle e c))" using assms(1) by (rule handle_timeOk)
  then have "score (fst (handle e c)) \<le> score (fst (checkSum (snd (handle e c)) (fst (handle e c))))"
    by (rule checkSum_score)
  moreover have "score (fst (handle e c)) = 0" by (cases c) (simp add: e startGame_score)
  ultimately show ?thesis by (simp add: step_def split_beta)
next
  case False
  then have "score (fst c) \<le> score (fst (step e c))" using assms(1) by (intro step_score) auto
  with assms(2) show ?thesis by simp
qed

lemma run_score_nonneg:
  "timeOk (fst c) \<Longrightarrow> 0 \<le> score (fst c) \<Longrightarrow> 0 \<le> score (fst (run es c))"
  by (induction es arbitrary: c) (simp_all add: step_timeOk step_score_nonneg)


text \<open>
  C9: the score is an integer that is never negative, and from any state reached from
  the initial one, no sequence of events without a new \<open>startGame\<close> lowers it.
\<close>

theorem score_monotone:
  assumes "\<forall>m. StartGame m \<notin> set es'"
  shows "0 \<le> score (fst (run es (initialState, g))) \<and>
    score (fst (run es (initialState, g))) \<le> score (fst (run es' (run es (initialState, g))))"
proof -
  have t: "timeOk (fst (run es (initialState, g)))" using initial_timeOk by (rule run_timeOk)
  have "0 \<le> score (fst (run es (initialState, g)))"
    using initial_timeOk by (rule run_score_nonneg) (simp add: initialState_def)
  moreover have "score (fst (run es (initialState, g))) \<le> score (fst (run es' (run es (initialState, g))))"
    using t assms by (rule run_score)
  ultimately show ?thesis by simp
qed

theorem score_monotone_witness:
  "(\<forall>m. StartGame m \<notin> set [BlockClick ''aa'', TimerTick, TogglePause]) \<and>
   0 \<le> score (fst (run [StartGame time] (initialState, rng_half))) \<and>
   score (fst (run [StartGame time] (initialState, rng_half)))
     \<le> score (fst (run [BlockClick ''aa'', TimerTick, TogglePause]
                       (run [StartGame time] (initialState, rng_half))))"
proof -
  have h: "\<forall>m. StartGame m \<notin> set [BlockClick ''aa'', TimerTick, TogglePause]" by simp
  from score_monotone [OF h, of "[StartGame time]" rng_half] h show ?thesis by blast
qed

section \<open>Selecting tiles\<close>

lemma addNewRow_selOk: "selOk s \<Longrightarrow> selOk (fst (addNewRow g s))"
  using addNewRow_ids [of s g] by (auto simp: selOk_def addNewRow_fields)

lemma checkSum_selOk: "selOk s \<Longrightarrow> selOk (fst (checkSum g s))"
  by (simp add: checkSum_def Let_def split_beta)
     (auto simp: selOk_def addNewRow_fields)

lemma timerTick_selOk: "selOk s \<Longrightarrow> selOk (fst (timerTick g s))"
  using addNewRow_selOk [of s g]
  by (auto simp: timerTick_def split_beta selOk_def)

lemma startGame_selOk: "selOk (fst (startGame m g s))"
  by (simp add: startGame_def split_beta selOk_def)

lemma handleBlockClick_selOk:
  "selOk s \<Longrightarrow> i \<in> id' ` set (blocks s) \<Longrightarrow> selOk (handleBlockClick i s)"
  by (auto simp: handleBlockClick_def selOk_def)

lemma handle_selOk:
  assumes "selOk (fst c)"
    and "case e of BlockClick i \<Rightarrow> i \<in> id' ` set (blocks (fst c)) | _ \<Rightarrow> True"
  shows "selOk (fst (handle e c))"
proof (cases e)
  case (BlockClick i)
  with assms show ?thesis by (cases c) (simp add: handleBlockClick_selOk)
next
  case (StartGame m)
  then show ?thesis by (cases c) (simp add: startGame_selOk)
next
  case TimerTick
  with assms show ?thesis by (cases c) (simp add: timerTick_selOk)
qed (use assms in \<open>cases c; simp add: selOk_def\<close>)+

lemma step_selOk:
  assumes "selOk (fst c)"
    and "case e of BlockClick i \<Rightarrow> i \<in> id' ` set (blocks (fst c)) | _ \<Rightarrow> True"
  shows "selOk (fst (step e c))"
  using checkSum_selOk [OF handle_selOk [OF assms], of "snd (handle e c)"]
  by (simp add: step_def split_beta)

lemma run_selOk: "selOk (fst c) \<Longrightarrow> clicksOnBoard es c \<Longrightarrow> selOk (fst (run es c))"
  by (induction es arbitrary: c) (simp_all add: step_selOk)


text \<open>
  C6 (amended): a click is a no-op when the game is over or paused. Otherwise it toggles
  the id in the selection, adding it at the end if absent and removing it if present,
  whether or not a tile with that id is on the board. Nothing keeps the selection
  within the board in general. It stays within the board along those event sequences
  in which every click is on a tile that is on the board when it is clicked.
\<close>

theorem handleBlockClick_toggle:
  "(isGameOver s \<or> isPaused s \<longrightarrow> handleBlockClick i s = s) \<and>
   (\<not> isGameOver s \<and> \<not> isPaused s \<longrightarrow>
      handleBlockClick i s =
        s\<lparr>selectedIds := (if i \<in> set (selectedIds s) then filter (\<lambda>j. j \<noteq> i) (selectedIds s)
                           else selectedIds s @ [i])\<rparr> \<and>
      (i \<in> set (selectedIds (handleBlockClick i s)) \<longleftrightarrow> i \<notin> set (selectedIds s)) \<and>
      (\<forall>j. j \<noteq> i \<longrightarrow>
         (j \<in> set (selectedIds (handleBlockClick i s)) \<longleftrightarrow> j \<in> set (selectedIds s)))) \<and>
   (clicksOnBoard es (initialState, g) \<longrightarrow>
      set (selectedIds (fst (run es (initialState, g))))
        \<subseteq> id' ` set (blocks (fst (run es (initialState, g)))))"
proof -
  have "selOk (fst (initialState, g))" by (simp add: selOk_def initialState_def)
  then have "clicksOnBoard es (initialState, g) \<Longrightarrow> selOk (fst (run es (initialState, g)))"
    by (rule run_selOk)
  then show ?thesis by (auto simp: handleBlockClick_def selOk_def)
qed

theorem handleBlockClick_toggle_witness:
  "\<not> isGameOver state_idle \<and> \<not> isPaused state_idle \<and>
   clicksOnBoard [StartGame classic, BlockClick ''aa''] (initialState, rng_half) \<and>
   selectedIds (handleBlockClick ''b'' state_idle) = [''a'', ''b''] \<and>
   selectedIds (handleBlockClick ''a'' state_idle) = [] \<and>
   set (selectedIds (fst (run [StartGame classic, BlockClick ''aa''] (initialState, rng_half))))
     \<subseteq> id' ` set (blocks (fst (run [StartGame classic, BlockClick ''aa''] (initialState, rng_half))))"
proof -
  have h1: "\<not> isGameOver state_idle \<and> \<not> isPaused state_idle" by (simp add: state_idle_def)
  obtain b bs where b: "blocks (fst (startGame classic rng_half initialState)) = b # bs"
    and "id' b = str36 (rng_half 1)"
    using startGame_first_block by blast
  then have "id' b = ''aa''" by (simp add: rng_half_def)
  then have h2: "clicksOnBoard [StartGame classic, BlockClick ''aa''] (initialState, rng_half)"
    using b by (simp add: step_StartGame)
  from handleBlockClick_toggle [of state_idle "''b''" "[StartGame classic, BlockClick ''aa'']" rng_half] h1
  have t1: "handleBlockClick ''b'' state_idle =
      state_idle\<lparr>selectedIds := (if ''b'' \<in> set (selectedIds state_idle)
         then filter (\<lambda>j. j \<noteq> ''b'') (selectedIds state_idle) else selectedIds state_idle @ [''b''])\<rparr>"
    by blast
  from handleBlockClick_toggle [of state_idle "''a''" "[StartGame classic, BlockClick ''aa'']" rng_half] h1 h2
  have t2: "handleBlockClick ''a'' state_idle =
      state_idle\<lparr>selectedIds := (if ''a'' \<in> set (selectedIds state_idle)
         then filter (\<lambda>j. j \<noteq> ''a'') (selectedIds state_idle) else selectedIds state_idle @ [''a''])\<rparr>"
    and t3: "set (selectedIds (fst (run [StartGame classic, BlockClick ''aa''] (initialState, rng_half))))
     \<subseteq> id' ` set (blocks (fst (run [StartGame classic, BlockClick ''aa''] (initialState, rng_half))))"
    by blast+
  have "selectedIds (handleBlockClick ''b'' state_idle) = [''a'', ''b'']"
    unfolding t1 by (simp add: state_idle_def)
  moreover have "selectedIds (handleBlockClick ''a'' state_idle) = []"
    unfolding t2 by (simp add: state_idle_def)
  ultimately show ?thesis using h1 h2 t3 by blast
qed


text \<open>A classic-mode match that advances the row, in full, and its result on a board.\<close>

lemma checkSum_classic_advance:
  assumes "selectedIds s \<noteq> []" and "currentSum s = targetSum s" and "mode s = Some classic"
    and "\<not> (\<exists>b \<in> set (filter (\<lambda>b. id' b \<notin> set (selectedIds s)) (blocks s)). row b \<le> 0)"
  shows "fst (checkSum g s) =
    s\<lparr>score := score s + int (length (selectedIds s)) * 10,
       selectedIds := [],
       targetSum := \<lfloor>round_double (num (g 0) * 16)\<rfloor> + 10,
       timeLeft := TIME_LIMIT,
       blocks := map (\<lambda>b. b\<lparr>row := row b - 1\<rparr>) (filter (\<lambda>b. id' b \<notin> set (selectedIds s)) (blocks s)) @
         map (\<lambda>k. \<lparr>id' = str36 (g (2 * k + 1)),
                      value' = \<lfloor>round_double (num (g (2 * k + 2)) * 9)\<rfloor> + 1,
                      row = 9, col = int k\<rparr>) [0..<6]\<rparr>"
proof -
  have gt: "generateTarget g = (\<lfloor>round_double (num (g 0) * 16)\<rfloor> + 10, \<lambda>n. g (Suc n))"
    by (simp add: generateTarget_def Math_random_def)
  have nr: "fst (newBlocks (int GRID_ROWS - 1) [0..<GRID_COLS] (\<lambda>n. g (Suc n))) =
      map (\<lambda>k. \<lparr>id' = str36 (g (2 * k + 1)),
                   value' = \<lfloor>round_double (num (g (2 * k + 2)) * 9)\<rfloor> + 1,
                   row = 9, col = int k\<rparr>) [0..<6]"
    unfolding newRow_explicit by (simp add: GRID_ROWS_def)
  show ?thesis
    using assms
    unfolding checkSum_def addNewRow_def Let_def shifted_overflow_iff gt
    by (auto simp: split_beta nr)
qed

lemma match_classic_result:
  "selectedIds (fst (checkSum rng_half state_match_classic)) = []"
  "map id' (blocks (fst (checkSum rng_half state_match_classic))) =
     [''c'', ''aa'', ''aaaa'', ''aaaaaa'', ''aaaaaaaa'', ''aaaaaaaaaa'', ''aaaaaaaaaaaa'']"
  "\<not> isGameOver (fst (checkSum rng_half state_match_classic))"
  "\<not> isPaused (fst (checkSum rng_half state_match_classic))"
proof -
  have h: "selectedIds state_match_classic \<noteq> []"
    "currentSum state_match_classic = targetSum state_match_classic"
    "mode state_match_classic = Some classic"
    "\<not> (\<exists>b \<in> set (filter (\<lambda>b. id' b \<notin> set (selectedIds state_match_classic))
        (blocks state_match_classic)). row b \<le> 0)"
    by (simp_all add: state_match_classic_def currentSum_def)
  show "selectedIds (fst (checkSum rng_half state_match_classic)) = []"
    "map id' (blocks (fst (checkSum rng_half state_match_classic))) =
     [''c'', ''aa'', ''aaaa'', ''aaaaaa'', ''aaaaaaaa'', ''aaaaaaaaaa'', ''aaaaaaaaaaaa'']"
    "\<not> isGameOver (fst (checkSum rng_half state_match_classic))"
    "\<not> isPaused (fst (checkSum rng_half state_match_classic))"
    unfolding checkSum_classic_advance [OF h]
    by (simp_all add: state_match_classic_def upt_rec rng_half_def eval_nat_numeral)
qed

text \<open>
  The claim as written fails for an id that is not on the board: the click is not
  ignored, it adds the id to the selection, which then names a tile that is not there.
  This is what a click on a tile just removed by a match does: the tile was on the
  board before the match, is gone after it, and its id enters the selection.
\<close>

theorem handleBlockClick_stale_counterexample:
  "\<not> isGameOver state_idle \<and> \<not> isPaused state_idle \<and>
   ''zz'' \<notin> id' ` set (blocks state_idle) \<and>
   handleBlockClick ''zz'' state_idle \<noteq> state_idle \<and>
   selectedIds (handleBlockClick ''zz'' state_idle) = [''a'', ''zz''] \<and>
   \<not> set (selectedIds (handleBlockClick ''zz'' state_idle))
       \<subseteq> id' ` set (blocks (handleBlockClick ''zz'' state_idle)) \<and>
   ''a'' \<in> id' ` set (blocks state_match_classic) \<and>
   ''a'' \<notin> id' ` set (blocks (fst (checkSum rng_half state_match_classic))) \<and>
   selectedIds (handleBlockClick ''a'' (fst (checkSum rng_half state_match_classic))) = [''a''] \<and>
   blocks (handleBlockClick ''a'' (fst (checkSum rng_half state_match_classic)))
     = blocks (fst (checkSum rng_half state_match_classic))"
proof -
  have old: "\<not> isGameOver state_idle \<and> \<not> isPaused state_idle \<and>
   ''zz'' \<notin> id' ` set (blocks state_idle) \<and>
   handleBlockClick ''zz'' state_idle \<noteq> state_idle \<and>
   selectedIds (handleBlockClick ''zz'' state_idle) = [''a'', ''zz''] \<and>
   \<not> set (selectedIds (handleBlockClick ''zz'' state_idle))
       \<subseteq> id' ` set (blocks (handleBlockClick ''zz'' state_idle))"
    by (simp add: handleBlockClick_def state_idle_def)
  have a: "''a'' \<in> id' ` set (blocks state_match_classic)"
    by (simp add: state_match_classic_def)
  have "''a'' \<notin> set (map id' (blocks (fst (checkSum rng_half state_match_classic))))"
    unfolding match_classic_result by simp
  then have b: "''a'' \<notin> id' ` set (blocks (fst (checkSum rng_half state_match_classic)))"
    by simp
  have c: "selectedIds (handleBlockClick ''a'' (fst (checkSum rng_half state_match_classic))) = [''a'']"
    "blocks (handleBlockClick ''a'' (fst (checkSum rng_half state_match_classic)))
     = blocks (fst (checkSum rng_half state_match_classic))"
    by (simp_all add: handleBlockClick_def match_classic_result)
  from old a b c show ?thesis by blast
qed

end
